theory Spec2Isabelle
  imports Main "HOL-Library.Multiset"
begin

section \<open>Label propagation (sknetwork/topology/labProp.pyx)\<close>

text \<open>
  The module is Cython. Its array elements and counters are C \<open>int\<close>s, modelled
  as \<open>int\<close>. Labels and node ids stay below \<open>n_nodes\<close>, and a tally is at most
  the number of values \<open>j\<close> of one loop over \<open>range(indptr[i], indptr[i+1])\<close>: on
  a valid graph at most the length of \<open>indices\<close>, itself an \<open>int\<close>, so no
  addition leaves the 32-bit range. Left out of the model is the overflow of a
  tally on an invalid graph, which takes a slice of \<open>2^31\<close> entries read with
  wrap-around. \<open>n_nodes\<close> is \<open>adjacency.shape[0]\<close>, a non-negative number,
  modelled as \<open>nat\<close>.
\<close>

subsection \<open>Errors and checked array reads\<close>

datatype error = IndexError | OverflowError

text \<open>
  \<open>fit_core\<close> carries no \<open>boundscheck\<close> / \<open>wraparound\<close> directive (the two
  decorators of the file are attached to \<open>shuffle\<close>), so the reads of its
  memoryviews and buffers have Cython's defaults: a negative index counts from
  the end, and an index that is still out of range raises \<open>IndexError\<close>.
\<close>

definition item :: "int list \<Rightarrow> int \<Rightarrow> error + int" where
  "item a i =
     (if i < 0
      then (if i + int (length a) < 0 then Inl IndexError
            else Inr (a ! nat (i + int (length a))))
      else (if int (length a) \<le> i then Inl IndexError else Inr (a ! nat i)))"

text \<open>
  The position that a checked access with index \<open>i\<close> reads or writes once it
  has passed the check.
\<close>

definition wrap_index :: "int list \<Rightarrow> int \<Rightarrow> nat" where
  "wrap_index a i = (if i < 0 then nat (i + int (length a)) else nat i)"

subsection \<open>The C library generator\<close>

text \<open>
  \<open>rand()\<close> is the C library's: a deterministic function of a hidden global
  state. The state is modelled by what it determines, the sequence of values
  the coming calls return; a call returns the head and leaves the rest.
\<close>

type_synonym rng = "nat \<Rightarrow> nat"

definition rand :: "rng \<Rightarrow> nat \<times> rng" where
  "rand g = (g 0, \<lambda>k. g (Suc k))"

subsection \<open>shuffle\<close>

text \<open>
  \<^verbatim>\<open>for i in range(n-1, 0, -1): j = rand() % (i+1); temp = arr[i];
  arr[i] = arr[j]; arr[j] = temp\<close>.
  \<open>draw_index r i\<close> is \<open>j\<close> for the value \<open>r\<close> of \<open>rand()\<close>, and
  \<open>shuffle_from i\<close> is the loop from index \<open>i\<close> down to 1. The accesses are
  unchecked (\<open>boundscheck(False)\<close>); the only caller passes \<open>n = len(arr)\<close>.
\<close>

definition draw_index :: "nat \<Rightarrow> nat \<Rightarrow> nat" where
  "draw_index r i = r mod (i + 1)"

fun shuffle_from :: "nat \<Rightarrow> int list \<Rightarrow> rng \<Rightarrow> int list \<times> rng" where
  "shuffle_from 0 arr g = (arr, g)"
| "shuffle_from (Suc i) arr g =
     (let (r, g') = rand g;
          j = draw_index r (Suc i);
          temp = arr ! Suc i;
          arr1 = arr[Suc i := arr ! j];
          arr2 = arr1[j := temp]
      in shuffle_from i arr2 g')"

definition shuffle :: "int list \<Rightarrow> nat \<Rightarrow> rng \<Rightarrow> int list \<times> rng" where
  "shuffle arr n g = shuffle_from (n - 1) arr g"

subsection \<open>fit_core\<close>

record csr =
  n_nodes :: nat
  indices :: "int list"
  indptr :: "int list"

text \<open>
  The arrays and the flag of \<open>fit_core\<close> that live across nodes.
  \<open>nb_labels\<close> is the vector of \<open>n_nodes\<close> reserved cells that line 72 zeroes.
\<close>

record core_state =
  labels :: "int list"
  order :: "int list"
  nb_labels :: "int list"
  changed :: bool

text \<open>
  Lines 83 to 89, over the values \<open>j\<close> of \<open>range(indptr[i], indptr[i+1])\<close>.
  \<open>lst\<close> is the list of the first \<open>list_size\<close> cells of the vector \<open>lst\<close>:
  \<open>lst[list_size] = label; list_size += 1\<close> appends, and no cell at or beyond
  \<open>list_size\<close> is ever read. The vector accesses are unchecked.
\<close>

fun count_labels ::
  "int list \<Rightarrow> int list \<Rightarrow> int list \<Rightarrow> int list \<Rightarrow> int list
     \<Rightarrow> error + (int list \<times> int list)" where
  "count_labels ind labs [] nb lst = Inr (nb, lst)"
| "count_labels ind labs (j # js) nb lst =
     (case item ind j of
        Inl e \<Rightarrow> Inl e
      | Inr v \<Rightarrow>
         (case item labs v of
            Inl e \<Rightarrow> Inl e
          | Inr label \<Rightarrow>
              count_labels ind labs js
                (nb[nat label := nb ! nat label + 1])
                (if nb ! nat label = 0 then lst @ [label] else lst)))"

text \<open>
  Lines 92 to 98, over the labels of \<open>lst\<close>. \<open>i\<close> is the position of the node in
  \<open>labels\<close>: the write \<open>labels[i] = label\<close> is checked like the read of
  \<open>labels[i]\<close> on line 91, which has passed before the loop begins. A label is
  a value read from \<open>labels\<close>, a node id in every state of a run (proved
  below for every input), so the cell \<open>nb_labels[label]\<close> of the unchecked
  reads and writes exists.
\<close>

fun update_label :: "nat \<Rightarrow> int list \<Rightarrow> int \<Rightarrow> core_state \<Rightarrow> core_state" where
  "update_label i [] nb_lab_max st = st"
| "update_label i (label # rest) nb_lab_max st =
     (if nb_lab_max < nb_labels st ! nat label
      then update_label i rest (nb_labels st ! nat label)
             (st\<lparr>labels := (labels st)[i := label],
                 changed := True,
                 nb_labels := (nb_labels st)[nat label := 0]\<rparr>)
      else update_label i rest nb_lab_max
             (st\<lparr>nb_labels := (nb_labels st)[nat label := 0]\<rparr>))"

text \<open>The body of the loop over \<open>k\<close> (lines 80 to 98) for the node \<open>i = order[k]\<close>.\<close>

definition process_node :: "csr \<Rightarrow> int \<Rightarrow> core_state \<Rightarrow> error + core_state" where
  "process_node g i st =
     (case item (indptr g) i of
        Inl e \<Rightarrow> Inl e
      | Inr lo \<Rightarrow>
         (case item (indptr g) (i + 1) of
            Inl e \<Rightarrow> Inl e
          | Inr hi \<Rightarrow>
             (case count_labels (indices g) (labels st) [lo..hi - 1] (nb_labels st) [] of
                Inl e \<Rightarrow> Inl e
              | Inr (nb, lst) \<Rightarrow>
                 (case item (labels st) i of
                    Inl e \<Rightarrow> Inl e
                  | Inr own \<Rightarrow>
                      Inr (update_label (wrap_index (labels st) i) lst (nb ! nat own)
                             (st\<lparr>nb_labels := nb\<rparr>))))))"

text \<open>Line 78: \<open>for k in range(n_nodes)\<close>, here over a list of values of \<open>k\<close>.\<close>

fun node_loop :: "csr \<Rightarrow> nat list \<Rightarrow> core_state \<Rightarrow> error + core_state" where
  "node_loop g [] st = Inr st"
| "node_loop g (k # ks) st =
     (case item (order st) (int k) of
        Inl e \<Rightarrow> Inl e
      | Inr i \<Rightarrow>
         (case process_node g i st of
            Inl e \<Rightarrow> Inl e
          | Inr st' \<Rightarrow> node_loop g ks st'))"

text \<open>
  One pass, the body of \<open>while changed\<close> (lines 76 to 98), and the state of
  the generator after it. An exception leaves the generator where line 76 put it.
\<close>

definition one_pass :: "csr \<Rightarrow> core_state \<Rightarrow> rng \<Rightarrow> (error + core_state) \<times> rng" where
  "one_pass g st r =
     (let (ord, r') = shuffle (order st) (n_nodes g) r
      in (node_loop g [0..<n_nodes g] (st\<lparr>order := ord, changed := False\<rparr>), r'))"

text \<open>
  \<open>while changed\<close>. The loop has no bound on its passes: not returning is \<open>None\<close>.
\<close>

partial_function (option) while_changed ::
  "csr \<Rightarrow> core_state \<Rightarrow> rng \<Rightarrow> ((error + core_state) \<times> rng) option" where
  "while_changed g st r =
     (if changed st
      then (case one_pass g st r of
              (Inl e, r') \<Rightarrow> Some (Inl e, r')
            | (Inr st', r') \<Rightarrow> while_changed g st' r')
      else Some (Inr st, r))"

declare while_changed.simps [code]

text \<open>Lines 65 to 73: the state before the first pass.\<close>

definition init_state :: "nat \<Rightarrow> core_state" where
  "init_state n =
     \<lparr>labels = map int [0..<n], order = map int [0..<n],
      nb_labels = replicate n 0, changed = True\<rparr>"

text \<open>\<open>fit_core\<close>: the returned \<open>labels\<close>, or the exception, and the generator.\<close>

definition fit_core ::
  "nat \<Rightarrow> int list \<Rightarrow> int list \<Rightarrow> rng \<Rightarrow> ((error + int list) \<times> rng) option" where
  "fit_core n ind ptr r =
     (case while_changed \<lparr>n_nodes = n, indices = ind, indptr = ptr\<rparr> (init_state n) r of
        None \<Rightarrow> None
      | Some (Inl e, r') \<Rightarrow> Some (Inl e, r')
      | Some (Inr st, r') \<Rightarrow> Some (Inr (labels st), r'))"

subsection \<open>The states a run goes through\<close>

text \<open>
  \<open>after_passes g p st r\<close> is where the loop \<open>while changed\<close>, entered in \<open>st\<close>
  with the generator \<open>r\<close>, stands when it has run \<open>p\<close> passes; \<open>None\<close> when it
  has left before.
\<close>

fun after_passes ::
  "csr \<Rightarrow> nat \<Rightarrow> core_state \<Rightarrow> rng \<Rightarrow> ((error + core_state) \<times> rng) option" where
  "after_passes g 0 st r = Some (Inr st, r)"
| "after_passes g (Suc p) st r =
     (if changed st
      then (case one_pass g st r of
              (Inl e, r') \<Rightarrow> Some (Inl e, r')
            | (Inr st', r') \<Rightarrow> after_passes g p st' r')
      else None)"

text \<open>
  \<open>mid_pass g st r k\<close> is the state inside the pass entered in \<open>st\<close> when the
  nodes \<open>order[0]\<close> to \<open>order[k-1]\<close> have been processed: the state in which the
  processing of \<open>order[k]\<close> begins.
\<close>

definition mid_pass :: "csr \<Rightarrow> core_state \<Rightarrow> rng \<Rightarrow> nat \<Rightarrow> error + core_state" where
  "mid_pass g st r k =
     (let (ord, r') = shuffle (order st) (n_nodes g) r
      in node_loop g [0..<k] (st\<lparr>order := ord, changed := False\<rparr>))"

subsection \<open>The class LabelPropagation\<close>

text \<open>
  Python objects are reached through references. \<open>objs\<close> holds the instances of
  \<open>LabelPropagation\<close> by address and \<open>arrays\<close> the numpy arrays, an address being
  a position in the list and an allocation an append; \<open>generator\<close> is the state
  of the C library's generator. The attribute \<open>labels_\<close> (here \<open>labels_attr\<close>: a name cannot end
  with an underscore) is \<open>None\<close> or the address of an array; \<open>seed\<close> is
  \<open>None\<close> or an integer.
\<close>

record LabelPropagation =
  labels_attr :: "nat option"
  seed :: "int option"

record world =
  objs :: "nat \<Rightarrow> LabelPropagation"
  arrays :: "int list list"
  generator :: rng

definition init :: "world \<Rightarrow> nat \<Rightarrow> int option \<Rightarrow> world" where
  "init w self sd = w\<lparr>objs := (objs w)(self := \<lparr>labels_attr = None, seed = sd\<rparr>)\<rparr>"

text \<open>
  \<open>srand\<close> is the C library's too: the parameter \<open>srand\<close> gives the state it sets.
  Its argument is an \<open>unsigned int\<close>, and the conversion of a Python integer
  outside \<open>[0, 2^32)\<close> raises \<open>OverflowError\<close>. \<open>fit_srand\<close> is lines 147 and 148.
\<close>

definition fit_srand :: "(nat \<Rightarrow> rng) \<Rightarrow> world \<Rightarrow> nat \<Rightarrow> error + world" where
  "fit_srand srand w self =
     (case seed (objs w self) of
        None \<Rightarrow> Inr w
      | Some s \<Rightarrow>
          if s < 0 \<or> 2 ^ 32 \<le> s then Inl OverflowError
          else Inr (w\<lparr>generator := srand (nat s)\<rparr>))"

text \<open>
  \<open>adjacency\<close> is the matrix as \<open>fit_core\<close> receives it on line 150:
  \<open>n_nodes\<close> is its \<open>shape[0]\<close> as a C \<open>int\<close>, \<open>indices\<close> and \<open>indptr\<close> are its
  index arrays as \<open>int[:]\<close> memoryviews. The conversions of the call are not
  part of the model: a matrix whose \<open>shape[0]\<close> is \<open>2^31\<close> or more
  (\<open>OverflowError\<close>) or whose index arrays are not writable 32-bit arrays
  (\<open>ValueError\<close>) makes line 150 raise before \<open>fit_core\<close> is entered, with
  \<open>labels_\<close> not assigned; such a matrix is not a value of \<open>csr\<close>. \<open>fit\<close>
  returns \<open>self\<close> or raises, and the world it leaves; \<open>None\<close> when \<open>fit_core\<close>
  does not return. The array \<open>fit_core\<close> returns is a new one.
\<close>

definition fit ::
  "(nat \<Rightarrow> rng) \<Rightarrow> world \<Rightarrow> nat \<Rightarrow> csr \<Rightarrow> ((error + nat) \<times> world) option" where
  "fit srand w self adjacency =
     (case fit_srand srand w self of
        Inl e \<Rightarrow> Some (Inl e, w)
      | Inr w1 \<Rightarrow>
         (case fit_core (n_nodes adjacency) (indices adjacency) (indptr adjacency)
                 (generator w1) of
            None \<Rightarrow> None
          | Some (Inl e, r') \<Rightarrow> Some (Inl e, w1\<lparr>generator := r'\<rparr>)
          | Some (Inr labs, r') \<Rightarrow>
              Some (Inr self,
                w1\<lparr>objs := (objs w1)(self := (objs w1 self)\<lparr>labels_attr := Some (length (arrays w1))\<rparr>),
                   arrays := arrays w1 @ [labs],
                   generator := r'\<rparr>)))"

definition fit_transform ::
  "(nat \<Rightarrow> rng) \<Rightarrow> world \<Rightarrow> nat \<Rightarrow> csr \<Rightarrow> ((error + nat option) \<times> world) option" where
  "fit_transform srand w self adjacency =
     (case fit srand w self adjacency of
        None \<Rightarrow> None
      | Some (Inl e, w') \<Rightarrow> Some (Inl e, w')
      | Some (Inr _, w') \<Rightarrow> Some (Inr (labels_attr (objs w' self)), w'))"

subsection \<open>The notions the properties are stated with\<close>

text \<open>
  A valid CSR graph (section 3 of the specification): \<open>indptr\<close> has
  \<open>n_nodes + 1\<close> offsets into \<open>indices\<close>, non-decreasing, the last one the length
  of \<open>indices\<close>, and every entry of \<open>indices\<close> is a node.
\<close>

definition valid_csr :: "csr \<Rightarrow> bool" where
  "valid_csr g \<longleftrightarrow>
     length (indptr g) = n_nodes g + 1 \<and>
     sorted (indptr g) \<and>
     0 \<le> indptr g ! 0 \<and>
     indptr g ! n_nodes g = int (length (indices g)) \<and>
     (\<forall>v \<in> set (indices g). 0 \<le> v \<and> v < int (n_nodes g))"

text \<open>The neighbours of node \<open>i\<close>: \<open>indices[indptr[i] .. indptr[i+1])\<close>, in order.\<close>

definition neighbours :: "csr \<Rightarrow> nat \<Rightarrow> int list" where
  "neighbours g i =
     map (\<lambda>j. indices g ! nat j) [indptr g ! i .. indptr g ! (i + 1) - 1]"

text \<open>The labels a node sees: the current label of each neighbour, in order.\<close>

definition neighbour_labels :: "csr \<Rightarrow> int list \<Rightarrow> nat \<Rightarrow> int list" where
  "neighbour_labels g labs i = map (\<lambda>v. labs ! nat v) (neighbours g i)"

text \<open>The tally of a label: the number of its occurrences among the labels seen.\<close>

definition tally :: "int list \<Rightarrow> int \<Rightarrow> int" where
  "tally seen lab = int (count_list seen lab)"

text \<open>The distinct labels seen, in the order of their first occurrence.\<close>

definition first_seen :: "int list \<Rightarrow> int list" where
  "first_seen seen = rev (remdups (rev seen))"

text \<open>
  The edges of the graph, and being in the same connected component: joined by
  a path of edges taken in either direction.
\<close>

definition edges :: "csr \<Rightarrow> (nat \<times> nat) set" where
  "edges g = {(i, nat v) | i v. i < n_nodes g \<and> v \<in> set (neighbours g i)}"

definition same_component :: "csr \<Rightarrow> nat \<Rightarrow> nat \<Rightarrow> bool" where
  "same_component g i j \<longleftrightarrow> (i, j) \<in> (edges g \<union> (edges g)\<inverse>)\<^sup>*"

text \<open>
  The labels of a state are node ids: \<open>n\<close> entries, each in \<open>[0, n)\<close>.
\<close>

definition labels_in_range :: "nat \<Rightarrow> int list \<Rightarrow> bool" where
  "labels_in_range n labs \<longleftrightarrow>
     length labs = n \<and> (\<forall>x \<in> set labs. 0 \<le> x \<and> x < int n)"

text \<open>
  How many of the values \<open>0 .. rand_max\<close> of \<open>rand()\<close> make the draw at index \<open>i\<close>
  choose \<open>j\<close>. \<open>RAND_MAX\<close> belongs to the C library: it is a parameter.
\<close>

definition draws_giving :: "nat \<Rightarrow> nat \<Rightarrow> nat \<Rightarrow> nat" where
  "draws_giving rand_max i j =
     length (filter (\<lambda>r. draw_index r i = j) [0..<Suc rand_max])"

text \<open>
  The visitation order holds every node once: it is a shuffled \<open>arange(n)\<close>.
\<close>

definition order_ok :: "nat \<Rightarrow> int list \<Rightarrow> bool" where
  "order_ok n ord \<longleftrightarrow> length ord = n \<and> set ord = int ` {0..<n}"

text \<open>
  The state between two nodes: the labels are node ids, the order holds every
  node, and the tally table is all zero.
\<close>

definition core_inv :: "nat \<Rightarrow> core_state \<Rightarrow> bool" where
  "core_inv n st \<longleftrightarrow>
     labels_in_range n (labels st) \<and> order_ok n (order st) \<and> nb_labels st = replicate n 0"

text \<open>Every label is the id of a node reached from its node along edges.\<close>

definition labels_reach :: "csr \<Rightarrow> int list \<Rightarrow> bool" where
  "labels_reach g labs \<longleftrightarrow> (\<forall>i < n_nodes g. (i, nat (labs ! i)) \<in> (edges g)\<^sup>*)"

text \<open>The graph of two nodes, each the only neighbour of the other.\<close>

abbreviation (input) two_nodes :: csr where
  "two_nodes \<equiv> \<lparr>n_nodes = 2, indices = [1, 0], indptr = [0, 1, 2]\<rparr>"

text \<open>
  What a run of \<open>fit\<close> shows of the labels: the content of the array that
  \<open>labels_\<close> refers to when \<open>fit\<close> has returned, and the content of \<open>labels\<close>
  when the run has made \<open>p\<close> passes in \<open>fit_core\<close>.
\<close>

definition fit_labels :: "((error + nat) \<times> world) option \<Rightarrow> (error + int list option) option" where
  "fit_labels res =
     map_option (\<lambda>(x, w').
        case x of
          Inl e \<Rightarrow> Inl e
        | Inr self \<Rightarrow> Inr (map_option (\<lambda>a. arrays w' ! a) (labels_attr (objs w' self)))) res"

definition pass_labels ::
  "(nat \<Rightarrow> rng) \<Rightarrow> world \<Rightarrow> nat \<Rightarrow> csr \<Rightarrow> nat \<Rightarrow> (error + int list) option" where
  "pass_labels srand w self adjacency p =
     (case fit_srand srand w self of
        Inl e \<Rightarrow> Some (Inl e)
      | Inr w1 \<Rightarrow>
          map_option (\<lambda>(x, r'). case x of Inl e \<Rightarrow> Inl e | Inr st \<Rightarrow> Inr (labels st))
            (after_passes adjacency p (init_state (n_nodes adjacency)) (generator w1)))"

section \<open>Properties\<close>

subsection \<open>shuffle\<close>

lemma draw_index_le: "draw_index r i \<le> i"
  unfolding draw_index_def using mod_less_divisor [of "i + 1" r] by simp

lemma shuffle_from_length: "length (fst (shuffle_from i arr g)) = length arr"
  by (induction i arbitrary: arr g) (simp_all add: rand_def Let_def)

lemma shuffle_from_mset:
  "i < length arr \<Longrightarrow> mset (fst (shuffle_from i arr g)) = mset arr"
proof (induction i arbitrary: arr g)
  case 0
  then show ?case by simp
next
  case (Suc i)
  let ?j = "draw_index (g 0) (Suc i)"
  have j: "?j < length arr"
    using Suc.prems draw_index_le [of "g 0" "Suc i"] by simp
  have "mset (arr[Suc i := arr ! ?j, ?j := arr ! Suc i]) = mset arr"
    using Suc.prems j by (simp add: mset_swap)
  moreover have "i < length (arr[Suc i := arr ! ?j, ?j := arr ! Suc i])"
    using Suc.prems by simp
  ultimately show ?case
    using Suc.IH [of "arr[Suc i := arr ! ?j, ?j := arr ! Suc i]"]
    by (simp add: rand_def Let_def)
qed

lemma shuffle_from_rng: "snd (shuffle_from i arr g) = (\<lambda>k. g (k + i))"
  by (induction i arbitrary: arr g) (simp_all add: rand_def Let_def)

lemma shuffle_from_fold:
  "fst (shuffle_from i arr g) =
     fold (\<lambda>m a. a[m := a ! draw_index (g (i - m)) m, draw_index (g (i - m)) m := a ! m])
       (rev [1..<Suc i]) arr"
proof (induction i arbitrary: arr g)
  case 0
  then show ?case by simp
next
  case (Suc i)
  let ?f = "\<lambda>h m (a::int list). a[m := a ! draw_index (h m) m, draw_index (h m) m := a ! m]"
  let ?arr2 = "arr[Suc i := arr ! draw_index (g 0) (Suc i), draw_index (g 0) (Suc i) := arr ! Suc i]"
  have cong: "fold (?f (\<lambda>m. g (Suc (i - m)))) (rev [1..<Suc i]) b =
        fold (?f (\<lambda>m. g (Suc i - m))) (rev [1..<Suc i]) b" for b
    by (rule fold_cong) (auto simp: Suc_diff_le)
  have "fst (shuffle_from (Suc i) arr g) = fst (shuffle_from i ?arr2 (\<lambda>k. g (Suc k)))"
    by (simp add: rand_def Let_def)
  also have "\<dots> = fold (?f (\<lambda>m. g (Suc (i - m)))) (rev [1..<Suc i]) ?arr2"
    by (rule Suc.IH)
  also have "\<dots> = fold (?f (\<lambda>m. g (Suc i - m))) (rev [1..<Suc i]) ?arr2"
    by (rule cong)
  also have "\<dots> = fold (?f (\<lambda>m. g (Suc i - m))) (Suc i # rev [1..<Suc i]) arr"
    by simp
  also have "Suc i # rev [1..<Suc i] = rev [1..<Suc (Suc i)]"
    by simp
  finally show ?case .
qed



text \<open>
  The draw \<open>rand() % (i+1)\<close> at \<open>i = 2\<close>, over the values \<open>0 .. 3q+1\<close> of
  \<open>rand()\<close>: the index 0 is chosen once more often than the index 2.
\<close>

lemma count_mod3:
  "j < 3 \<Longrightarrow> length (filter (\<lambda>r. r mod 3 = j) [0..<3 * q]) = q"
proof (induction q)
  case 0
  then show ?case by simp
next
  case (Suc q)
  have u: "[0..<3 * Suc q] = [0..<3 * q] @ [3 * q, Suc (3 * q), Suc (Suc (3 * q))]"
    by (simp add: numeral_3_eq_3)
  have m: "(3 * q) mod 3 = 0" "Suc (3 * q) mod 3 = 1" "Suc (Suc (3 * q)) mod 3 = 2"
    by presburger+
  have ih: "length (filter (\<lambda>r. r mod 3 = j) [0..<3 * q]) = q"
    by (rule Suc.IH [OF Suc.prems])
  from Suc.prems consider "j = 0" | "j = 1" | "j = 2" by linarith
  then have "length (filter (\<lambda>r. r mod 3 = j) [3 * q, Suc (3 * q), Suc (Suc (3 * q))]) = 1"
    by cases (simp_all add: m)
  then show ?case
    by (simp only: u filter_append length_append ih)
qed

lemma draws_giving_bias:
  "draws_giving (3 * q + 1) 2 0 = Suc q \<and> draws_giving (3 * q + 1) 2 2 = q"
proof -
  have u: "[0..<Suc (3 * q + 1)] = [0..<3 * q] @ [3 * q, Suc (3 * q)]"
    by simp
  have m: "(3 * q) mod 3 = 0" "Suc (3 * q) mod 3 = 1"
    by presburger+
  have d: "draw_index r 2 = r mod 3" for r
    by (simp add: draw_index_def)
  show ?thesis
    unfolding draws_giving_def d u filter_append length_append
    using count_mod3 [of 0 q] count_mod3 [of 2 q] by (simp add: m)
qed

text \<open>
  C5, as stated, fails: with \<open>RAND_MAX = 2147483647\<close> (glibc) and every value
  of \<open>rand()\<close> as likely as any other, the draw at \<open>i = 2\<close> does not choose
  uniformly from \<open>[0, 2]\<close>: 715827883 values give \<open>j = 0\<close> and 715827882 give
  \<open>j = 2\<close>. So the orderings of three elements are not equally likely.
\<close>

theorem shuffle_draw_not_uniform:
  "draws_giving 2147483647 2 0 \<noteq> draws_giving 2147483647 2 2"
  using draws_giving_bias [of 715827882] by simp

subsection \<open>What a node, a pass and a run leave unchanged\<close>

lemma item_in_set: "item a i = Inr x \<Longrightarrow> x \<in> set a"
  by (auto simp: item_def split: if_splits)

lemma count_labels_from:
  "count_labels ind labs js nb lst = Inr (nb', lst') \<Longrightarrow>
     set lst' \<subseteq> set lst \<union> set labs \<and> length nb' = length nb"
proof (induction js arbitrary: nb lst)
  case Nil
  then show ?case by auto
next
  case (Cons j js)
  from Cons.prems obtain v label where
    v: "item ind j = Inr v" and l: "item labs v = Inr label" and
    rest: "count_labels ind labs js (nb[nat label := nb ! nat label + 1])
             (if nb ! nat label = 0 then lst @ [label] else lst) = Inr (nb', lst')"
    by (auto split: sum.splits)
  from Cons.IH [OF rest] item_in_set [OF l] show ?case
    by (auto split: if_splits)
qed

lemma update_label_frame:
  "set (labels (update_label i lst m st)) \<subseteq> set (labels st) \<union> set lst \<and>
   length (labels (update_label i lst m st)) = length (labels st) \<and>
   length (nb_labels (update_label i lst m st)) = length (nb_labels st) \<and>
   order (update_label i lst m st) = order st"
proof (induction lst arbitrary: m st)
  case Nil
  then show ?case by simp
next
  case (Cons label rest)
  have "set ((labels st)[i := label]) \<subseteq> insert label (set (labels st))"
    by (rule set_update_subset_insert)
  then show ?case
    using Cons.IH [of "nb_labels st ! nat label"
        "st\<lparr>labels := (labels st)[i := label], changed := True,
            nb_labels := (nb_labels st)[nat label := 0]\<rparr>"]
      Cons.IH [of m "st\<lparr>nb_labels := (nb_labels st)[nat label := 0]\<rparr>"]
    by auto
qed

lemma process_node_frame:
  assumes "process_node g i st = Inr st'"
  shows "set (labels st') \<subseteq> set (labels st) \<and> length (labels st') = length (labels st) \<and>
         length (nb_labels st') = length (nb_labels st) \<and> order st' = order st"
proof -
  from assms obtain lo hi nb lst own where
    c: "count_labels (indices g) (labels st) [lo..hi - 1] (nb_labels st) [] = Inr (nb, lst)" and
    st': "st' = update_label (wrap_index (labels st) i) lst (nb ! nat own) (st\<lparr>nb_labels := nb\<rparr>)"
    by (auto simp: process_node_def split: sum.splits)
  from count_labels_from [OF c]
    update_label_frame [of "wrap_index (labels st) i" lst "nb ! nat own" "st\<lparr>nb_labels := nb\<rparr>"]
  show ?thesis unfolding st' by auto
qed

lemma node_loop_frame:
  "node_loop g ks st = Inr st' \<Longrightarrow>
     set (labels st') \<subseteq> set (labels st) \<and> length (labels st') = length (labels st) \<and>
     length (nb_labels st') = length (nb_labels st) \<and> order st' = order st"
proof (induction ks arbitrary: st)
  case Nil
  then show ?case by simp
next
  case (Cons k ks)
  from Cons.prems obtain i st1 where
    p: "process_node g i st = Inr st1" and r: "node_loop g ks st1 = Inr st'"
    by (auto split: sum.splits)
  from process_node_frame [OF p] Cons.IH [OF r] show ?case by auto
qed

lemma labels_in_range_subset:
  "labels_in_range n labs \<Longrightarrow> set labs' \<subseteq> set labs \<Longrightarrow> length labs' = length labs \<Longrightarrow>
     labels_in_range n labs'"
  by (auto simp: labels_in_range_def)

lemma mid_pass_range:
  assumes "labels_in_range n (labels st)" and "mid_pass g st r k = Inr st'"
  shows "labels_in_range n (labels st')"
proof -
  obtain ord r' where s: "shuffle (order st) (n_nodes g) r = (ord, r')"
    by (cases "shuffle (order st) (n_nodes g) r")
  with assms(2) have "node_loop g [0..<k] (st\<lparr>order := ord, changed := False\<rparr>) = Inr st'"
    by (simp add: mid_pass_def)
  from node_loop_frame [OF this] assms(1) show ?thesis
    by (auto intro: labels_in_range_subset)
qed

lemma one_pass_mid_pass:
  "fst (one_pass g st r) = mid_pass g st r (n_nodes g)"
  by (simp add: one_pass_def mid_pass_def split: prod.splits)

lemma one_pass_range:
  assumes "labels_in_range n (labels st)" and "one_pass g st r = (Inr st', r')"
  shows "labels_in_range n (labels st')"
  using mid_pass_range [OF assms(1), of g r "n_nodes g" st'] one_pass_mid_pass [of g st r] assms(2)
  by simp

lemma after_passes_invariant:
  assumes step: "\<And>st r st' r'. P st \<Longrightarrow> one_pass g st r = (Inr st', r') \<Longrightarrow> P st'"
  shows "P st \<Longrightarrow> after_passes g p st r = Some (Inr st', r') \<Longrightarrow> P st'"
proof (induction p arbitrary: st r)
  case 0
  then show ?case by simp
next
  case (Suc p)
  from Suc.prems(2) obtain st1 r1 where
    o: "one_pass g st r = (Inr st1, r1)" and a: "after_passes g p st1 r1 = Some (Inr st', r')"
    by (auto split: if_splits prod.splits sum.splits)
  from Suc.IH [OF step [OF Suc.prems(1) o] a] show ?case .
qed



lemma while_changed_invariant:
  assumes step: "\<And>st r st' r'. P st \<Longrightarrow> one_pass g st r = (Inr st', r') \<Longrightarrow> P st'"
    and run: "while_changed g st r = Some (Inr st', r')"
    and start: "P st"
  shows "P st' \<and> \<not> changed st'"
proof -
  define Q where "Q = (\<lambda>(g0::csr) st (r::rng) (y::(error + core_state) \<times> rng).
     g0 = g \<longrightarrow> P st \<longrightarrow> (\<forall>st' r'. y = (Inr st', r') \<longrightarrow> P st' \<and> \<not> changed st'))"
  have "Q g st r (Inr st', r')"
  proof (rule while_changed.raw_induct [where P = Q, OF _ run])
    fix f g0 st r y
    assume IH: "\<And>g st r y. f g st r = Some y \<Longrightarrow> Q g st r y"
      and eq: "(if changed st
                then case one_pass g0 st r of (Inl e, r') \<Rightarrow> Some (Inl e, r')
                     | (Inr st', r') \<Rightarrow> f g0 st' r'
                else Some (Inr st, r)) = Some y"
    show "Q g0 st r y"
      unfolding Q_def
    proof (intro impI allI)
      fix st' r'
      assume g0: "g0 = g" and P: "P st" and y: "y = (Inr st', r')"
      show "P st' \<and> \<not> changed st'"
      proof (cases "changed st")
        case False
        with eq P y show ?thesis by simp
      next
        case True
        with eq y g0 obtain st1 r1 where
          o: "one_pass g st r = (Inr st1, r1)" and f: "f g st1 r1 = Some (Inr st', r')"
          by (auto split: prod.splits sum.splits)
        from IH [OF f] step [OF P o] show ?thesis by (simp add: Q_def)
      qed
    qed
  qed
  with start show ?thesis by (simp add: Q_def)
qed

lemma shuffle_length: "length (fst (shuffle arr n g)) = length arr"
  by (simp add: shuffle_def shuffle_from_length)

text \<open>
  C5, amended. For \<open>n \<le> len(arr)\<close>, \<open>shuffle(arr, n)\<close> leaves a permutation of
  the sequence, the one of the Fisher-Yates traversal: for \<open>i\<close> from \<open>n-1\<close> down
  to 1 it swaps the elements \<open>i\<close> and \<open>j\<close>, where \<open>j = rand() % (i+1)\<close> is in
  \<open>[0, i]\<close> (the \<open>(n-1-i)\<close>-th value drawn). Beyond the permutation in place
  its only effect is on the generator, advanced by \<open>n - 1\<close> calls; for
  \<open>n = 0\<close> and \<open>n = 1\<close> the sequence and the generator are unchanged.
\<close>

theorem shuffle_fisher_yates:
  assumes "n \<le> length arr"
  shows "mset (fst (shuffle arr n g)) = mset arr \<and>
         fst (shuffle arr n g) =
           fold (\<lambda>i a. a[i := a ! draw_index (g (n - 1 - i)) i,
                           draw_index (g (n - 1 - i)) i := a ! i])
             (rev [1..<n]) arr \<and>
         (\<forall>i \<in> set (rev [1..<n]). draw_index (g (n - 1 - i)) i \<le> i) \<and>
         snd (shuffle arr n g) = (\<lambda>k. g (k + (n - 1))) \<and>
         (n \<le> 1 \<longrightarrow> shuffle arr n g = (arr, g))"
proof (cases n)
  case 0
  then show ?thesis by (simp add: shuffle_def)
next
  case (Suc m)
  with assms have "m < length arr" by simp
  from shuffle_from_mset [OF this, of g] shuffle_from_fold [of m arr g] shuffle_from_rng [of m arr g]
  show ?thesis
    unfolding shuffle_def Suc
    by (auto simp: draw_index_le prod_eq_iff simp del: upt_Suc)
qed

theorem shuffle_fisher_yates_witness:
  "(3::nat) \<le> length [10, 20, 30 :: int] \<and>
   fst (shuffle [10, 20, 30] 3 (\<lambda>k. 7 * k + 5)) = [20, 10, 30] \<and>
   mset (fst (shuffle [10, 20, 30] 3 (\<lambda>k. 7 * k + 5))) = mset [10, 20, 30] \<and>
   snd (shuffle [10, 20, 30] 3 (\<lambda>k. 7 * k + 5)) 0 = 19"
proof -
  have h: "(3::nat) \<le> length [10, 20, 30 :: int]" by simp
  have v: "fst (shuffle [10, 20, 30] 3 (\<lambda>k. 7 * k + 5)) = [20, 10, 30]" by code_simp
  have m: "mset (fst (shuffle [10, 20, 30] 3 (\<lambda>k. 7 * k + 5))) = mset [10, 20, 30]"
    using shuffle_fisher_yates [OF h, of "\<lambda>k. 7 * k + 5"] by (rule conjunct1)
  have s: "snd (shuffle [10, 20, 30] 3 (\<lambda>k. 7 * k + 5)) 0 = 19" by code_simp
  from h v m s show ?thesis by (intro conjI)
qed

subsection \<open>The visitation order\<close>

lemma shuffle_mset: "n \<le> length arr \<Longrightarrow> mset (fst (shuffle arr n g)) = mset arr"
  by (cases n) (simp_all add: shuffle_def shuffle_from_mset)

lemma shuffle_set: "n \<le> length arr \<Longrightarrow> set (fst (shuffle arr n g)) = set arr"
  using shuffle_mset [of n arr g] by (metis set_mset_mset)

lemma item_Inr: "0 \<le> i \<Longrightarrow> i < int (length a) \<Longrightarrow> item a i = Inr (a ! nat i)"
  by (simp add: item_def)

lemma order_ok_init: "order_ok n (map int [0..<n])"
  by (simp add: order_ok_def)

lemma order_ok_shuffle: "order_ok n ord \<Longrightarrow> order_ok n (fst (shuffle ord n g))"
  by (simp add: order_ok_def shuffle_set shuffle_length)

lemma order_ok_item:
  assumes "order_ok n ord" and "k < n"
  shows "item ord (int k) = Inr (ord ! k) \<and> 0 \<le> ord ! k \<and> ord ! k < int n"
proof -
  from assms have "ord ! k \<in> int ` {0..<n}"
    unfolding order_ok_def using nth_mem [of k ord] by simp
  with assms show ?thesis by (auto simp: item_Inr order_ok_def)
qed

subsection \<open>Unrolling the loop\<close>

lemma while_changed_step:
  "changed st \<Longrightarrow> one_pass g st r = (Inr st', r') \<Longrightarrow>
     while_changed g st r = while_changed g st' r'"
  by (subst while_changed.simps) simp

lemma while_changed_stop: "\<not> changed st \<Longrightarrow> while_changed g st r = Some (Inr st, r)"
  by (subst while_changed.simps) simp

lemma while_changed_raise:
  "changed st \<Longrightarrow> one_pass g st r = (Inl e, r') \<Longrightarrow> while_changed g st r = Some (Inl e, r')"
  by (subst while_changed.simps) simp

lemma changed_init_state: "changed (init_state n)"
  by (simp add: init_state_def)

subsection \<open>The graph without edges\<close>

lemma process_node_edgeless:
  assumes "0 \<le> i" and "i < int n" and "length (labels st) = n"
  shows "process_node \<lparr>n_nodes = n, indices = [], indptr = replicate (Suc n) c\<rparr> i st = Inr st"
proof -
  have "item (replicate (Suc n) c) j = Inr c" if "0 \<le> j" and "j \<le> int n" for j
    using that item_Inr [of j "replicate (Suc n) c"] nth_replicate [of "nat j" "Suc n" c]
    by (simp del: replicate_Suc)
  from this [of i] this [of "i + 1"] assms
  have "item (replicate (Suc n) c) i = Inr c" "item (replicate (Suc n) c) (i + 1) = Inr c"
    by simp_all
  moreover have "item (labels st) i = Inr (labels st ! nat i)"
    using assms by (simp add: item_Inr)
  ultimately show ?thesis
    by (simp add: process_node_def)
qed

lemma node_loop_edgeless:
  assumes "order_ok n (order st)" and "length (labels st) = n" and "\<forall>k \<in> set ks. k < n"
  shows "node_loop \<lparr>n_nodes = n, indices = [], indptr = replicate (Suc n) c\<rparr> ks st = Inr st"
  using assms(3)
proof (induction ks)
  case Nil
  then show ?case by simp
next
  case (Cons k ks)
  then have "k < n" by simp
  from order_ok_item [OF assms(1) this] process_node_edgeless [of "order st ! k" n st c] assms(2) Cons
  show ?case by simp
qed

text \<open>
  C8. On a graph without edges (\<open>indices\<close> empty, the \<open>n_nodes + 1\<close> entries of
  \<open>indptr\<close> all equal), whatever the generator, the first pass changes no
  label and leaves \<open>changed\<close> false, so the loop ends after it (one shuffle has
  been drawn), and \<open>fit_core\<close> returns \<open>labels[i] = i\<close> for every \<open>i\<close>.
\<close>

theorem edgeless_identity:
  "fst (one_pass \<lparr>n_nodes = n, indices = [], indptr = replicate (Suc n) c\<rparr> (init_state n) r) =
     Inr ((init_state n)\<lparr>order := fst (shuffle (map int [0..<n]) n r), changed := False\<rparr>) \<and>
   fit_core n [] (replicate (Suc n) c) r =
     Some (Inr (map int [0..<n]), \<lambda>k. r (k + (n - 1)))"
proof -
  let ?g = "\<lparr>n_nodes = n, indices = [], indptr = replicate (Suc n) c\<rparr>"
  let ?ord = "fst (shuffle (map int [0..<n]) n r)"
  let ?st = "(init_state n)\<lparr>order := ?ord, changed := False\<rparr>"
  have rng: "snd (shuffle (map int [0..<n]) n r) = (\<lambda>k. r (k + (n - 1)))"
    by (simp add: shuffle_def shuffle_from_rng)
  have "order_ok n (order ?st)"
    using order_ok_shuffle [OF order_ok_init, of n r] by simp
  moreover have "length (labels ?st) = n"
    by (simp add: init_state_def)
  ultimately have nl: "node_loop ?g [0..<n] ?st = Inr ?st"
    by (intro node_loop_edgeless) simp_all
  then have p: "one_pass ?g (init_state n) r = (Inr ?st, \<lambda>k. r (k + (n - 1)))"
    using rng by (simp add: one_pass_def init_state_def case_prod_unfold del: replicate_Suc)
  have "while_changed ?g (init_state n) r = while_changed ?g ?st (\<lambda>k. r (k + (n - 1)))"
    by (rule while_changed_step [OF changed_init_state p])
  also have "\<dots> = Some (Inr ?st, \<lambda>k. r (k + (n - 1)))"
    by (rule while_changed_stop) simp
  finally have "fit_core n [] (replicate (Suc n) c) r =
      Some (Inr (map int [0..<n]), \<lambda>k. r (k + (n - 1)))"
    by (simp add: fit_core_def init_state_def)
  with p show ?thesis by simp
qed

subsection \<open>The graph of two nodes\<close>

lemma shuffle_two:
  "shuffle [a, b] 2 r = (if even (r 0) then [b, a] else [a, b], \<lambda>k. r (Suc k))"
proof -
  have one: "(2::nat) - 1 = Suc 0" by simp
  have d: "draw_index (r 0) (Suc 0) = (if even (r 0) then 0 else 1)"
    unfolding draw_index_def using mod2_eq_if [of "r 0"] by (simp add: numeral_2_eq_2)
  show ?thesis
    unfolding shuffle_def one by (simp add: rand_def d)
qed

lemma two_nodes_first:
  "node_loop two_nodes [0] \<lparr>labels = [0, 1], order = [1, 0], nb_labels = [0, 0], changed = False\<rparr> =
     Inr \<lparr>labels = [0, 0], order = [1, 0], nb_labels = [0, 0], changed = True\<rparr>"
  "node_loop two_nodes [0] \<lparr>labels = [0, 1], order = [0, 1], nb_labels = [0, 0], changed = False\<rparr> =
     Inr \<lparr>labels = [1, 1], order = [0, 1], nb_labels = [0, 0], changed = True\<rparr>"
  by code_simp+

lemma two_nodes_both:
  "node_loop two_nodes [0, Suc 0] \<lparr>labels = [0, 1], order = [1, 0], nb_labels = [0, 0], changed = False\<rparr> =
     Inr \<lparr>labels = [0, 0], order = [1, 0], nb_labels = [0, 0], changed = True\<rparr>"
  "node_loop two_nodes [0, Suc 0] \<lparr>labels = [0, 1], order = [0, 1], nb_labels = [0, 0], changed = False\<rparr> =
     Inr \<lparr>labels = [1, 1], order = [0, 1], nb_labels = [0, 0], changed = True\<rparr>"
  by code_simp+

lemma two_nodes_again:
  "node_loop two_nodes [0, Suc 0] \<lparr>labels = [0, 0], order = [1, 0], nb_labels = [0, 0], changed = False\<rparr> =
     Inr \<lparr>labels = [0, 0], order = [1, 0], nb_labels = [0, 0], changed = False\<rparr>"
  "node_loop two_nodes [0, Suc 0] \<lparr>labels = [0, 0], order = [0, 1], nb_labels = [0, 0], changed = False\<rparr> =
     Inr \<lparr>labels = [0, 0], order = [0, 1], nb_labels = [0, 0], changed = False\<rparr>"
  "node_loop two_nodes [0, Suc 0] \<lparr>labels = [1, 1], order = [1, 0], nb_labels = [0, 0], changed = False\<rparr> =
     Inr \<lparr>labels = [1, 1], order = [1, 0], nb_labels = [0, 0], changed = False\<rparr>"
  "node_loop two_nodes [0, Suc 0] \<lparr>labels = [1, 1], order = [0, 1], nb_labels = [0, 0], changed = False\<rparr> =
     Inr \<lparr>labels = [1, 1], order = [0, 1], nb_labels = [0, 0], changed = False\<rparr>"
  by code_simp+

lemma upt_two: "[0..<2] = [0, Suc 0]"
  by (simp add: numeral_2_eq_2)

lemma init_state_two:
  "init_state 2 = \<lparr>labels = [0, 1], order = [0, 1], nb_labels = [0, 0], changed = True\<rparr>"
  by (simp add: init_state_def numeral_2_eq_2)

lemma two_nodes_pass1:
  "one_pass two_nodes (init_state 2) r =
     (Inr \<lparr>labels = (if even (r 0) then [0, 0] else [1, 1]),
           order = (if even (r 0) then [1, 0] else [0, 1]),
           nb_labels = [0, 0], changed = True\<rparr>, \<lambda>k. r (Suc k))"
  by (simp add: one_pass_def init_state_two shuffle_two two_nodes_both upt_two del: node_loop.simps)

lemma two_nodes_mid1:
  "mid_pass two_nodes (init_state 2) r 1 =
     Inr \<lparr>labels = (if even (r 0) then [0, 0] else [1, 1]),
          order = (if even (r 0) then [1, 0] else [0, 1]),
          nb_labels = [0, 0], changed = True\<rparr>"
  by (simp add: mid_pass_def init_state_two shuffle_two two_nodes_first del: node_loop.simps)

lemma two_nodes_pass2:
  assumes "labs = [0, 0] \<or> labs = [1, 1]" and "ord = [0, 1] \<or> ord = [1, 0]"
  shows "one_pass two_nodes \<lparr>labels = labs, order = ord, nb_labels = [0, 0], changed = True\<rparr> r =
     (Inr \<lparr>labels = labs, order = (if even (r 0) then rev ord else ord),
           nb_labels = [0, 0], changed = False\<rparr>, \<lambda>k. r (Suc k))"
  using assms by (auto simp: one_pass_def shuffle_two two_nodes_again upt_two simp del: node_loop.simps)

text \<open>
  C9. On the graph of two nodes that are each other's only neighbour, whatever
  the generator: the node visited first in the first pass (node 1 when the
  first value drawn is even, node 0 otherwise) adopts the label of the other,
  the node visited second keeps the label now shared, and \<open>fit_core\<close> returns
  after the second pass, which changes nothing, with both labels equal.
\<close>

theorem two_nodes_share_label:
  "mid_pass two_nodes (init_state 2) r 1 =
     Inr \<lparr>labels = (if even (r 0) then [0, 0] else [1, 1]),
          order = (if even (r 0) then [1, 0] else [0, 1]),
          nb_labels = [0, 0], changed = True\<rparr> \<and>
   fst (one_pass two_nodes (init_state 2) r) =
     Inr \<lparr>labels = (if even (r 0) then [0, 0] else [1, 1]),
          order = (if even (r 0) then [1, 0] else [0, 1]),
          nb_labels = [0, 0], changed = True\<rparr> \<and>
   fit_core 2 [1, 0] [0, 1, 2] r =
     Some (Inr (if even (r 0) then [0, 0] else [1, 1]), \<lambda>k. r (k + 2))"
proof -
  let ?labs = "if even (r 0) then [0, 0] else [1, 1 :: int]"
  let ?ord = "if even (r 0) then [1, 0] else [0, 1 :: int]"
  let ?st1 = "\<lparr>labels = ?labs, order = ?ord, nb_labels = [0, 0], changed = True\<rparr>"
  let ?r1 = "\<lambda>k. r (Suc k)"
  let ?st2 = "\<lparr>labels = ?labs, order = (if even (?r1 0) then rev ?ord else ?ord),
                nb_labels = [0, 0], changed = False\<rparr>"
  have p2: "one_pass two_nodes ?st1 ?r1 = (Inr ?st2, \<lambda>k. ?r1 (Suc k))"
    by (rule two_nodes_pass2) simp_all
  have "while_changed two_nodes (init_state 2) r = while_changed two_nodes ?st1 ?r1"
    by (rule while_changed_step [OF changed_init_state two_nodes_pass1])
  also have "\<dots> = while_changed two_nodes ?st2 (\<lambda>k. ?r1 (Suc k))"
    by (rule while_changed_step [OF _ p2]) simp
  also have "\<dots> = Some (Inr ?st2, \<lambda>k. ?r1 (Suc k))"
    by (rule while_changed_stop) simp
  finally have "fit_core 2 [1, 0] [0, 1, 2] r = Some (Inr ?labs, \<lambda>k. r (k + 2))"
    by (simp add: fit_core_def)
  with two_nodes_mid1 [of r] two_nodes_pass1 [of r] show ?thesis
    by simp
qed

subsection \<open>fit and fit_transform\<close>

lemma fit_srand_frame:
  "fit_srand srand w self = Inr w1 \<Longrightarrow> objs w1 = objs w \<and> arrays w1 = arrays w"
  by (auto simp: fit_srand_def split: option.splits if_splits)

lemma fit_cases:
  assumes "fit srand w self adjacency = Some (res, w')"
  obtains
    (overflow) e where "fit_srand srand w self = Inl e" and "res = Inl e" and "w' = w"
  | (raised) w1 e r' where "fit_srand srand w self = Inr w1"
      and "fit_core (n_nodes adjacency) (indices adjacency) (indptr adjacency) (generator w1) =
             Some (Inl e, r')"
      and "res = Inl e" and "w' = w1\<lparr>generator := r'\<rparr>"
  | (returned) w1 labs r' where "fit_srand srand w self = Inr w1"
      and "fit_core (n_nodes adjacency) (indices adjacency) (indptr adjacency) (generator w1) =
             Some (Inr labs, r')"
      and "res = Inr self"
      and "w' = w1\<lparr>objs := (objs w1)(self := (objs w1 self)\<lparr>labels_attr := Some (length (arrays w1))\<rparr>),
                   arrays := arrays w1 @ [labs], generator := r'\<rparr>"
  using assms unfolding fit_def
  by (auto split: sum.splits option.splits prod.splits)

text \<open>
  C10, as stated, fails: it leaves \<open>fit\<close> no effect on the generator but through
  \<open>srand\<close> when \<open>seed\<close> is not \<open>None\<close>. With \<open>seed = None\<close>, on the graph of two
  nodes, \<open>fit\<close> leaves the generator two values further: the next \<open>rand()\<close>
  would have returned 0 before the call and returns 2 after it.
\<close>

theorem fit_unseeded_advances_generator:
  "seed (objs \<lparr>objs = (\<lambda>_. \<lparr>labels_attr = None, seed = None\<rparr>), arrays = [],
                generator = (\<lambda>k. k)\<rparr> 0) = None \<and>
   generator \<lparr>objs = (\<lambda>_. \<lparr>labels_attr = None, seed = None\<rparr>), arrays = [],
                generator = (\<lambda>k. k)\<rparr> 0 = 0 \<and>
   map_option (\<lambda>(x, w'). generator w' 0)
     (fit (\<lambda>s k. s + k)
        \<lparr>objs = (\<lambda>_. \<lparr>labels_attr = None, seed = None\<rparr>), arrays = [], generator = (\<lambda>k. k)\<rparr>
        0 two_nodes) = Some 2"
  by code_simp

text \<open>
  C10, amended. A call of \<open>fit\<close> that ends leaves every other instance, the
  attribute \<open>seed\<close> of \<open>self\<close> and every array that existed as they were. When
  it returns, it returns \<open>self\<close>, \<open>labels_\<close> refers to a new array, and
  \<open>fit_transform\<close> returns that very reference, not a copy. Its only other
  effect is on the generator of the C library: set by \<open>srand\<close> when \<open>seed\<close> is
  not \<open>None\<close>, and advanced by the \<open>rand()\<close> calls of \<open>fit_core\<close> in every case.
\<close>

theorem fit_frame:
  assumes "fit srand w self adjacency = Some (res, w')"
  shows "(\<forall>other. other \<noteq> self \<longrightarrow> objs w' other = objs w other) \<and>
         seed (objs w' self) = seed (objs w self) \<and>
         take (length (arrays w)) (arrays w') = arrays w \<and>
         (\<forall>x. res = Inr x \<longrightarrow>
            x = self \<and>
            labels_attr (objs w' self) = Some (length (arrays w)) \<and>
            length (arrays w') = Suc (length (arrays w)) \<and>
            fit_transform srand w self adjacency = Some (Inr (labels_attr (objs w' self)), w')) \<and>
         (case fit_srand srand w self of
            Inl e \<Rightarrow> generator w' = generator w
          | Inr w1 \<Rightarrow>
              map_option snd
                (fit_core (n_nodes adjacency) (indices adjacency) (indptr adjacency) (generator w1)) =
              Some (generator w'))"
  using assms
proof (cases rule: fit_cases)
  case (overflow e)
  then show ?thesis by simp
next
  case (raised w1 e r')
  with fit_srand_frame [of srand w self w1] show ?thesis by simp
next
  case (returned w1 labs r')
  with fit_srand_frame [of srand w self w1] assms show ?thesis
    by (simp add: fit_transform_def)
qed

theorem fit_frame_witness:
  "\<exists>w'. fit (\<lambda>s k. s + k)
          \<lparr>objs = (\<lambda>_. \<lparr>labels_attr = None, seed = Some 7\<rparr>), arrays = [[4, 4]], generator = (\<lambda>k. k)\<rparr>
          5 two_nodes = Some (Inr 5, w') \<and>
        seed (objs w' 5) = Some 7 \<and> labels_attr (objs w' 5) = Some 1 \<and>
        arrays w' = [[4, 4], [1, 1]] \<and>
        fit_transform (\<lambda>s k. s + k)
          \<lparr>objs = (\<lambda>_. \<lparr>labels_attr = None, seed = Some 7\<rparr>), arrays = [[4, 4]], generator = (\<lambda>k. k)\<rparr>
          5 two_nodes = Some (Inr (Some 1), w')"
proof -
  let ?w = "\<lparr>objs = (\<lambda>_. \<lparr>labels_attr = None, seed = Some 7\<rparr>), arrays = [[4, 4]],
             generator = (\<lambda>k. k)\<rparr>"
  have "map_option (\<lambda>(x, w'). (x, arrays w')) (fit (\<lambda>s k. s + k) ?w 5 two_nodes) =
          Some (Inr 5, [[4, 4], [1, 1]])"
    by code_simp
  then obtain w' where f: "fit (\<lambda>s k. s + k) ?w 5 two_nodes = Some (Inr 5, w')"
    and a: "arrays w' = [[4, 4], [1, 1]]"
    by (cases "fit (\<lambda>s k. s + k) ?w 5 two_nodes") auto
  from fit_frame [OF f] a f show ?thesis by simp
qed

text \<open>
  C6. Two runs of \<open>fit\<close> on the same graph with the same integer seed, from
  any two states of the world (generator, arrays, instances), end alike and
  with the same content of \<open>labels_\<close>, and have the same content of \<open>labels\<close>
  after every number of passes.
\<close>

theorem fit_seeded_deterministic:
  assumes "seed (objs w1 self1) = Some s" and "seed (objs w2 self2) = Some s"
  shows "fit_labels (fit srand w1 self1 adjacency) = fit_labels (fit srand w2 self2 adjacency) \<and>
         (\<forall>p. pass_labels srand w1 self1 adjacency p = pass_labels srand w2 self2 adjacency p)"
proof (cases "s < 0 \<or> 2 ^ 32 \<le> s")
  case True
  with assms have "fit_srand srand w1 self1 = Inl OverflowError"
    "fit_srand srand w2 self2 = Inl OverflowError"
    by (simp_all add: fit_srand_def)
  then show ?thesis
    by (simp add: fit_def fit_labels_def pass_labels_def)
next
  case False
  with assms have e: "fit_srand srand w1 self1 = Inr (w1\<lparr>generator := srand (nat s)\<rparr>)"
    "fit_srand srand w2 self2 = Inr (w2\<lparr>generator := srand (nat s)\<rparr>)"
    by (simp_all add: fit_srand_def)
  have "fit_labels (fit srand w self adjacency) =
      map_option (\<lambda>(x, r'). case x of Inl e \<Rightarrow> Inl e | Inr labs \<Rightarrow> Inr (Some labs))
        (fit_core (n_nodes adjacency) (indices adjacency) (indptr adjacency) (srand (nat s)))"
    if "fit_srand srand w self = Inr (w\<lparr>generator := srand (nat s)\<rparr>)" for w self
    using that by (auto simp: fit_def fit_labels_def split: option.splits sum.splits)
  from this [OF e(1)] this [OF e(2)] e show ?thesis
    by (simp add: pass_labels_def)
qed

theorem fit_seeded_deterministic_witness:
  "seed (objs \<lparr>objs = (\<lambda>_. \<lparr>labels_attr = None, seed = Some 7\<rparr>), arrays = [],
                generator = (\<lambda>k. k)\<rparr> 0) = Some 7 \<and>
   seed (objs \<lparr>objs = (\<lambda>_. \<lparr>labels_attr = Some 0, seed = Some 7\<rparr>), arrays = [[4, 4]],
                generator = (\<lambda>k. 2 * k)\<rparr> 5) = Some 7 \<and>
   fit_labels (fit (\<lambda>s k. s + k)
      \<lparr>objs = (\<lambda>_. \<lparr>labels_attr = None, seed = Some 7\<rparr>), arrays = [], generator = (\<lambda>k. k)\<rparr>
      0 two_nodes) = Some (Inr (Some [1, 1])) \<and>
   fit_labels (fit (\<lambda>s k. s + k)
      \<lparr>objs = (\<lambda>_. \<lparr>labels_attr = Some 0, seed = Some 7\<rparr>), arrays = [[4, 4]], generator = (\<lambda>k. 2 * k)\<rparr>
      5 two_nodes) = Some (Inr (Some [1, 1]))"
proof -
  let ?w1 = "\<lparr>objs = (\<lambda>_. \<lparr>labels_attr = None, seed = Some 7\<rparr>), arrays = [], generator = (\<lambda>k. k)\<rparr>"
  let ?w2 = "\<lparr>objs = (\<lambda>_. \<lparr>labels_attr = Some 0, seed = Some 7\<rparr>), arrays = [[4, 4]],
              generator = (\<lambda>k. 2 * k)\<rparr>"
  have h1: "seed (objs ?w1 0) = Some 7" and h2: "seed (objs ?w2 5) = Some 7"
    by simp_all
  have v: "fit_labels (fit (\<lambda>s k. s + k) ?w1 0 two_nodes) = Some (Inr (Some [1, 1]))"
    by code_simp
  from fit_seeded_deterministic [OF h1 h2, of "\<lambda>s k. s + k" two_nodes] v h1 h2
  show ?thesis by simp
qed

subsection \<open>A valid graph\<close>

lemma valid_csr_bounds:
  assumes "valid_csr g" and "i < n_nodes g"
  shows "0 \<le> indptr g ! i" and "indptr g ! i \<le> indptr g ! (i + 1)"
    and "indptr g ! (i + 1) \<le> int (length (indices g))"
proof -
  from assms have len: "length (indptr g) = n_nodes g + 1" and srt: "sorted (indptr g)"
    and z: "0 \<le> indptr g ! 0" and fin: "indptr g ! n_nodes g = int (length (indices g))"
    by (simp_all add: valid_csr_def)
  from sorted_nth_mono [OF srt, of 0 i] len assms(2) z show "0 \<le> indptr g ! i" by simp
  from sorted_nth_mono [OF srt, of i "i + 1"] len assms(2)
  show "indptr g ! i \<le> indptr g ! (i + 1)" by simp
  from sorted_nth_mono [OF srt, of "i + 1" "n_nodes g"] len assms(2) fin
  show "indptr g ! (i + 1) \<le> int (length (indices g))" by simp
qed

lemma valid_csr_item:
  assumes "valid_csr g" and "i < n_nodes g"
  shows "item (indptr g) (int i) = Inr (indptr g ! i)"
    and "item (indptr g) (int i + 1) = Inr (indptr g ! (i + 1))"
proof -
  from assms have len: "length (indptr g) = n_nodes g + 1" by (simp add: valid_csr_def)
  with assms(2) show "item (indptr g) (int i) = Inr (indptr g ! i)"
    by (simp add: item_Inr)
  have "nat (int i + 1) = i + 1" by simp
  with item_Inr [of "int i + 1" "indptr g"] len assms(2)
  show "item (indptr g) (int i + 1) = Inr (indptr g ! (i + 1))"
    by simp
qed

lemma valid_csr_slice:
  assumes "valid_csr g" and "i < n_nodes g"
    and "j \<in> set [indptr g ! i .. indptr g ! (i + 1) - 1]"
  shows "0 \<le> j \<and> j < int (length (indices g))"
  using valid_csr_bounds [OF assms(1,2)] assms(3) by auto

lemma valid_csr_indices:
  "valid_csr g \<Longrightarrow> v \<in> set (indices g) \<Longrightarrow> 0 \<le> v \<and> v < int (n_nodes g)"
  by (simp add: valid_csr_def)

lemma neighbours_in_range:
  assumes "valid_csr g" and "i < n_nodes g" and "v \<in> set (neighbours g i)"
  shows "0 \<le> v \<and> v < int (n_nodes g)"
proof -
  from assms(3) obtain j where j: "j \<in> set [indptr g ! i .. indptr g ! (i + 1) - 1]"
    and v: "v = indices g ! nat j"
    by (auto simp: neighbours_def)
  from valid_csr_slice [OF assms(1,2) j] have "nat j < length (indices g)"
    by linarith
  then have "indices g ! nat j \<in> set (indices g)"
    by (rule nth_mem)
  with valid_csr_indices [OF assms(1)] v show ?thesis by simp
qed

lemma first_seen_snoc:
  "first_seen (seen @ [x]) = (if x \<in> set seen then first_seen seen else first_seen seen @ [x])"
  by (simp add: first_seen_def)

lemma set_first_seen: "set (first_seen seen) = set seen"
  by (simp add: first_seen_def)

lemma distinct_first_seen: "distinct (first_seen seen)"
  by (simp add: first_seen_def)

lemma tally_snoc: "tally (seen @ [x]) lab = tally seen lab + (if x = lab then 1 else 0)"
  by (simp add: tally_def)

lemma tally_zero_iff: "tally seen lab = 0 \<longleftrightarrow> lab \<notin> set seen"
  by (simp add: tally_def count_list_0_iff)

lemma count_labels_valid:
  assumes "\<forall>j \<in> set js. 0 \<le> j \<and> j < int (length ind)"
    and "\<forall>v \<in> set ind. 0 \<le> v \<and> v < int (length labs)"
    and "\<forall>x \<in> set labs. 0 \<le> x \<and> x < int n"
    and "length nb = n"
    and "\<forall>l < n. nb ! l = tally seen (int l)"
    and "lst = first_seen seen"
  shows "\<exists>nb'. count_labels ind labs js nb lst =
           Inr (nb', first_seen (seen @ map (\<lambda>j. labs ! nat (ind ! nat j)) js)) \<and>
         length nb' = n \<and>
         (\<forall>l < n. nb' ! l = tally (seen @ map (\<lambda>j. labs ! nat (ind ! nat j)) js) (int l))"
  using assms(1,4,5,6)
proof (induction js arbitrary: nb lst seen)
  case Nil
  then show ?case by simp
next
  case (Cons j js)
  let ?v = "ind ! nat j"
  let ?label = "labs ! nat ?v"
  let ?nb = "nb[nat ?label := nb ! nat ?label + 1]"
  let ?lst = "if nb ! nat ?label = 0 then lst @ [?label] else lst"
  from Cons.prems(1) have j: "0 \<le> j" "j < int (length ind)" by simp_all
  then have "nat j < length ind" by simp
  then have "?v \<in> set ind" by (rule nth_mem)
  with assms(2) have v: "0 \<le> ?v" "?v < int (length labs)" by simp_all
  then have "nat ?v < length labs" by simp
  then have "?label \<in> set labs" by (rule nth_mem)
  with assms(3) have lab: "0 \<le> ?label" "?label < int n" by simp_all
  then have nl: "nat ?label < n" by simp
  have step: "count_labels ind labs (j # js) nb lst = count_labels ind labs js ?nb ?lst"
    using j v by (simp add: item_Inr)
  have t: "nb ! nat ?label = tally seen ?label"
    using Cons.prems(3) nl lab by simp
  have a: "length ?nb = n" using Cons.prems(2) by simp
  have b: "\<forall>l < n. ?nb ! l = tally (seen @ [?label]) (int l)"
  proof (intro allI impI)
    fix l assume l: "l < n"
    show "?nb ! l = tally (seen @ [?label]) (int l)"
    proof (cases "l = nat ?label")
      case True
      with l lab t Cons.prems(2) show ?thesis by (simp add: tally_snoc)
    next
      case False
      with lab have "?label \<noteq> int l" by auto
      with False l Cons.prems(3) show ?thesis by (simp add: tally_snoc)
    qed
  qed
  have c: "?lst = first_seen (seen @ [?label])"
    using t Cons.prems(4) by (simp add: first_seen_snoc tally_zero_iff)
  from Cons.prems(1) have d: "\<forall>j \<in> set js. 0 \<le> j \<and> j < int (length ind)" by simp
  from Cons.IH [OF d a b c] step show ?case by simp
qed

subsection \<open>The choice of a label\<close>

lemma update_label_resets:
  "nb_labels (update_label i lst m st) = fold (\<lambda>lab nb. nb[nat lab := 0]) lst (nb_labels st)"
  by (induction lst arbitrary: m st) simp_all

lemma fold_reset_nth:
  "l < length nb \<Longrightarrow>
     fold (\<lambda>lab nb. nb[nat lab := 0]) lst nb ! l = (if l \<in> nat ` set lst then 0 else nb ! l)"
proof (induction lst arbitrary: nb)
  case Nil
  then show ?case by simp
next
  case (Cons lab lst)
  from Cons.IH [of "nb[nat lab := 0]"] Cons.prems show ?case
    by (auto simp: nth_list_update)
qed

lemma fold_reset_length:
  "length (fold (\<lambda>lab nb. nb[nat lab := 0]) lst nb) = length nb"
  by (induction lst arbitrary: nb) simp_all

lemma update_label_choice:
  assumes "distinct lst" and "\<forall>lab \<in> set lst. 0 \<le> lab"
    and "\<forall>lab \<in> set lst. nb_labels st ! nat lab = t lab"
  shows "if \<forall>lab \<in> set lst. t lab \<le> m
         then labels (update_label i lst m st) = labels st \<and>
              changed (update_label i lst m st) = changed st
         else \<exists>pre w post. lst = pre @ w # post \<and> (\<forall>x \<in> set pre. t x < t w) \<and>
                (\<forall>x \<in> set post. t x \<le> t w) \<and> m < t w \<and>
                labels (update_label i lst m st) = (labels st)[i := w] \<and>
                changed (update_label i lst m st)"
  using assms
proof (induction lst arbitrary: m st)
  case Nil
  then show ?case by simp
next
  case (Cons label rest)
  have tl: "nb_labels st ! nat label = t label"
    using Cons.prems(3) by simp
  have d: "distinct rest" and nn: "\<forall>lab \<in> set rest. 0 \<le> lab"
    using Cons.prems(1,2) by simp_all
  have keep: "\<forall>lab \<in> set rest. (nb_labels st)[nat label := 0] ! nat lab = t lab"
  proof
    fix lab assume r: "lab \<in> set rest"
    with Cons.prems(1) have "lab \<noteq> label" by auto
    moreover from r Cons.prems(2) have "0 \<le> lab" "0 \<le> label" by simp_all
    ultimately have "nat label \<noteq> nat lab" by simp
    with r Cons.prems(3) show "(nb_labels st)[nat label := 0] ! nat lab = t lab" by simp
  qed
  show ?case
  proof (cases "m < t label")
    case True
    let ?st = "st\<lparr>labels := (labels st)[i := label], changed := True,
                  nb_labels := (nb_labels st)[nat label := 0]\<rparr>"
    have u: "update_label i (label # rest) m st = update_label i rest (t label) ?st"
      using True tl by simp
    have k: "\<forall>lab \<in> set rest. nb_labels ?st ! nat lab = t lab"
      using keep by simp
    note ih = Cons.IH [OF d nn k, of "t label"]
    show ?thesis
    proof (cases "\<forall>lab \<in> set rest. t lab \<le> t label")
      case all: True
      with ih have "labels (update_label i rest (t label) ?st) = (labels st)[i := label]"
        and "changed (update_label i rest (t label) ?st)"
        by simp_all
      moreover have "label # rest = [] @ label # rest" by simp
      ultimately have "\<exists>pre w post. label # rest = pre @ w # post \<and> (\<forall>x \<in> set pre. t x < t w) \<and>
                (\<forall>x \<in> set post. t x \<le> t w) \<and> m < t w \<and>
                labels (update_label i rest (t label) ?st) = (labels st)[i := w] \<and>
                changed (update_label i rest (t label) ?st)"
        using all True by (intro exI [of _ "[]"] exI [of _ label] exI [of _ rest]) simp
      with True show ?thesis unfolding u by auto
    next
      case some: False
      with ih obtain pre w post where p: "rest = pre @ w # post"
        "\<forall>x \<in> set pre. t x < t w" "\<forall>x \<in> set post. t x \<le> t w" "t label < t w"
        "labels (update_label i rest (t label) ?st) = (labels ?st)[i := w]"
        "changed (update_label i rest (t label) ?st)"
        by auto
      have "label # rest = (label # pre) @ w # post \<and> (\<forall>x \<in> set (label # pre). t x < t w) \<and>
                (\<forall>x \<in> set post. t x \<le> t w) \<and> m < t w \<and>
                labels (update_label i rest (t label) ?st) = (labels st)[i := w] \<and>
                changed (update_label i rest (t label) ?st)"
        using p True by simp
      then have "\<exists>pre w post. label # rest = pre @ w # post \<and> (\<forall>x \<in> set pre. t x < t w) \<and>
                (\<forall>x \<in> set post. t x \<le> t w) \<and> m < t w \<and>
                labels (update_label i rest (t label) ?st) = (labels st)[i := w] \<and>
                changed (update_label i rest (t label) ?st)"
        by blast
      with True show ?thesis unfolding u by auto
    qed
  next
    case False
    let ?st = "st\<lparr>nb_labels := (nb_labels st)[nat label := 0]\<rparr>"
    have u: "update_label i (label # rest) m st = update_label i rest m ?st"
      using False tl by simp
    have k: "\<forall>lab \<in> set rest. nb_labels ?st ! nat lab = t lab"
      using keep by simp
    note ih = Cons.IH [OF d nn k, of m]
    show ?thesis
    proof (cases "\<forall>lab \<in> set rest. t lab \<le> m")
      case all: True
      with ih False show ?thesis unfolding u by simp
    next
      case some: False
      with ih obtain pre w post where p: "rest = pre @ w # post"
        "\<forall>x \<in> set pre. t x < t w" "\<forall>x \<in> set post. t x \<le> t w" "m < t w"
        "labels (update_label i rest m ?st) = (labels ?st)[i := w]"
        "changed (update_label i rest m ?st)"
        by auto
      have "label # rest = (label # pre) @ w # post \<and> (\<forall>x \<in> set (label # pre). t x < t w) \<and>
                (\<forall>x \<in> set post. t x \<le> t w) \<and> m < t w \<and>
                labels (update_label i rest m ?st) = (labels st)[i := w] \<and>
                changed (update_label i rest m ?st)"
        using p False by simp
      then have "\<exists>pre w post. label # rest = pre @ w # post \<and> (\<forall>x \<in> set pre. t x < t w) \<and>
                (\<forall>x \<in> set post. t x \<le> t w) \<and> m < t w \<and>
                labels (update_label i rest m ?st) = (labels st)[i := w] \<and>
                changed (update_label i rest m ?st)"
        by blast
      with some show ?thesis unfolding u by auto
    qed
  qed
qed

lemma neighbour_labels_alt:
  "neighbour_labels g labs i =
     map (\<lambda>j. labs ! nat (indices g ! nat j)) [indptr g ! i .. indptr g ! (i + 1) - 1]"
  by (simp add: neighbour_labels_def neighbours_def)

lemma neighbour_labels_in_range:
  assumes "valid_csr g" and "i < n_nodes g" and "labels_in_range (n_nodes g) labs"
    and "lab \<in> set (neighbour_labels g labs i)"
  shows "0 \<le> lab \<and> lab < int (n_nodes g)"
proof -
  from assms(4) obtain v where v: "v \<in> set (neighbours g i)" and l: "lab = labs ! nat v"
    by (auto simp: neighbour_labels_def)
  from neighbours_in_range [OF assms(1,2) v] assms(3) have "nat v < length labs"
    by (simp add: labels_in_range_def nat_less_iff)
  then have "labs ! nat v \<in> set labs" by (rule nth_mem)
  with assms(3) l show ?thesis by (simp add: labels_in_range_def)
qed

lemma process_node_valid:
  assumes valid: "valid_csr g" and i: "i < n_nodes g"
    and labs: "labels_in_range (n_nodes g) (labels st)"
    and zero: "nb_labels st = replicate (n_nodes g) 0"
  shows "\<exists>st'. process_node g (int i) st = Inr st' \<and>
           order st' = order st \<and>
           nb_labels st' = replicate (n_nodes g) 0 \<and>
           (if \<forall>lab \<in> set (neighbour_labels g (labels st) i).
                 tally (neighbour_labels g (labels st) i) lab
                   \<le> tally (neighbour_labels g (labels st) i) (labels st ! i)
            then labels st' = labels st \<and> changed st' = changed st
            else \<exists>pre w post.
                   first_seen (neighbour_labels g (labels st) i) = pre @ w # post \<and>
                   (\<forall>x \<in> set pre. tally (neighbour_labels g (labels st) i) x
                       < tally (neighbour_labels g (labels st) i) w) \<and>
                   (\<forall>x \<in> set post. tally (neighbour_labels g (labels st) i) x
                       \<le> tally (neighbour_labels g (labels st) i) w) \<and>
                   tally (neighbour_labels g (labels st) i) (labels st ! i)
                       < tally (neighbour_labels g (labels st) i) w \<and>
                   labels st' = (labels st)[i := w] \<and> changed st')"
proof -
  let ?n = "n_nodes g"
  let ?nls = "neighbour_labels g (labels st) i"
  let ?js = "[indptr g ! i .. indptr g ! (i + 1) - 1]"
  let ?own = "labels st ! i"
  let ?t = "tally ?nls"
  from labs have len: "length (labels st) = ?n"
    and rng: "\<forall>x \<in> set (labels st). 0 \<le> x \<and> x < int ?n"
    by (simp_all add: labels_in_range_def)
  have "\<exists>nb'. count_labels (indices g) (labels st) ?js (nb_labels st) [] =
           Inr (nb', first_seen ([] @ map (\<lambda>j. labels st ! nat (indices g ! nat j)) ?js)) \<and>
         length nb' = ?n \<and>
         (\<forall>l < ?n. nb' ! l =
            tally ([] @ map (\<lambda>j. labels st ! nat (indices g ! nat j)) ?js) (int l))"
  proof (rule count_labels_valid)
    show "\<forall>j \<in> set ?js. 0 \<le> j \<and> j < int (length (indices g))"
      using valid_csr_slice [OF valid i] by blast
    show "\<forall>v \<in> set (indices g). 0 \<le> v \<and> v < int (length (labels st))"
      using valid_csr_indices [OF valid] len by simp
    show "\<forall>x \<in> set (labels st). 0 \<le> x \<and> x < int ?n" by (rule rng)
    show "length (nb_labels st) = ?n" by (simp add: zero)
    show "\<forall>l < ?n. nb_labels st ! l = tally [] (int l)" by (simp add: zero tally_def)
    show "[] = first_seen []" by (simp add: first_seen_def)
  qed
  then obtain nb where
    c: "count_labels (indices g) (labels st) ?js (nb_labels st) [] = Inr (nb, first_seen ?nls)"
    and nbl: "length nb = ?n" and nbt: "\<forall>l < ?n. nb ! l = ?t (int l)"
    by (auto simp: neighbour_labels_alt)
  have own: "item (labels st) (int i) = Inr ?own"
    using i len by (simp add: item_Inr)
  from i len have "?own \<in> set (labels st)" by simp
  with rng have ownr: "0 \<le> ?own" "?own < int ?n" by simp_all
  then have "nat ?own < ?n" "int (nat ?own) = ?own" by (simp_all add: nat_less_iff)
  with nbt have nbo: "nb ! nat ?own = ?t ?own" by force
  let ?st' = "update_label i (first_seen ?nls) (?t ?own) (st\<lparr>nb_labels := nb\<rparr>)"
  have p: "process_node g (int i) st = Inr ?st'"
    using valid_csr_item [OF valid i] c own nbo by (simp add: process_node_def wrap_index_def)
  have inr: "0 \<le> lab \<and> lab < int ?n" if "lab \<in> set ?nls" for lab
    using neighbour_labels_in_range [OF valid i labs that] .
  have ord: "order ?st' = order st"
    using update_label_frame [of i "first_seen ?nls" "?t ?own" "st\<lparr>nb_labels := nb\<rparr>"] by simp
  have nb0: "nb_labels ?st' = replicate ?n 0"
  proof (rule nth_equalityI)
    show "length (nb_labels ?st') = length (replicate ?n (0::int))"
      by (simp add: update_label_resets fold_reset_length nbl)
  next
    fix l assume "l < length (nb_labels ?st')"
    then have l: "l < ?n" by (simp add: update_label_resets fold_reset_length nbl)
    have "nb ! l = 0" if "l \<notin> nat ` set ?nls"
    proof -
      from that have "int l \<notin> set ?nls" by force
      with nbt l show ?thesis by (simp add: tally_zero_iff)
    qed
    with l show "nb_labels ?st' ! l = replicate ?n 0 ! l"
      by (simp add: update_label_resets fold_reset_nth nbl set_first_seen)
  qed
  have ch: "if \<forall>lab \<in> set (first_seen ?nls). ?t lab \<le> ?t ?own
         then labels ?st' = labels (st\<lparr>nb_labels := nb\<rparr>) \<and>
              changed ?st' = changed (st\<lparr>nb_labels := nb\<rparr>)
         else \<exists>pre w post. first_seen ?nls = pre @ w # post \<and> (\<forall>x \<in> set pre. ?t x < ?t w) \<and>
                (\<forall>x \<in> set post. ?t x \<le> ?t w) \<and> ?t ?own < ?t w \<and>
                labels ?st' = (labels (st\<lparr>nb_labels := nb\<rparr>))[i := w] \<and>
                changed ?st'"
  proof (rule update_label_choice)
    show "distinct (first_seen ?nls)" by (rule distinct_first_seen)
    show "\<forall>lab \<in> set (first_seen ?nls). 0 \<le> lab"
      using inr by (simp add: set_first_seen)
    show "\<forall>lab \<in> set (first_seen ?nls). nb_labels (st\<lparr>nb_labels := nb\<rparr>) ! nat lab = ?t lab"
    proof
      fix lab assume "lab \<in> set (first_seen ?nls)"
      then have "0 \<le> lab \<and> lab < int ?n" using inr by (simp add: set_first_seen)
      then have "nat lab < ?n" "int (nat lab) = lab" by (simp_all add: nat_less_iff)
      with nbt show "nb_labels (st\<lparr>nb_labels := nb\<rparr>) ! nat lab = ?t lab" by force
    qed
  qed
  have ch': "if \<forall>lab \<in> set ?nls. ?t lab \<le> ?t ?own
         then labels ?st' = labels st \<and> changed ?st' = changed st
         else \<exists>pre w post. first_seen ?nls = pre @ w # post \<and> (\<forall>x \<in> set pre. ?t x < ?t w) \<and>
                (\<forall>x \<in> set post. ?t x \<le> ?t w) \<and> ?t ?own < ?t w \<and>
                labels ?st' = (labels st)[i := w] \<and> changed ?st'"
  proof (cases "\<forall>lab \<in> set ?nls. ?t lab \<le> ?t ?own")
    case True
    with ch show ?thesis by (simp add: set_first_seen)
  next
    case False
    then have f: "\<not> (\<forall>lab \<in> set (first_seen ?nls). ?t lab \<le> ?t ?own)"
      unfolding set_first_seen .
    from ch have "\<exists>pre w post. first_seen ?nls = pre @ w # post \<and> (\<forall>x \<in> set pre. ?t x < ?t w) \<and>
                (\<forall>x \<in> set post. ?t x \<le> ?t w) \<and> ?t ?own < ?t w \<and>
                labels ?st' = (labels (st\<lparr>nb_labels := nb\<rparr>))[i := w] \<and>
                changed ?st'"
      unfolding if_not_P [OF f] .
    then have "\<exists>pre w post. first_seen ?nls = pre @ w # post \<and> (\<forall>x \<in> set pre. ?t x < ?t w) \<and>
                (\<forall>x \<in> set post. ?t x \<le> ?t w) \<and> ?t ?own < ?t w \<and>
                labels ?st' = (labels st)[i := w] \<and> changed ?st'"
      by simp
    then show ?thesis unfolding if_not_P [OF False] .
  qed
  from p ord nb0 ch' show ?thesis
    by (intro exI [of _ ?st'] conjI)
qed

subsection \<open>The invariant of the run on a valid graph\<close>

lemma core_inv_init: "core_inv n (init_state n)"
  by (auto simp: core_inv_def init_state_def labels_in_range_def order_ok_def)

lemma process_node_core_inv:
  assumes "valid_csr g" and "i < n_nodes g" and "core_inv (n_nodes g) st"
  shows "\<exists>st'. process_node g (int i) st = Inr st' \<and> core_inv (n_nodes g) st'"
proof -
  from assms(3) have l: "labels_in_range (n_nodes g) (labels st)"
    and z: "nb_labels st = replicate (n_nodes g) 0" and o: "order_ok (n_nodes g) (order st)"
    by (simp_all add: core_inv_def)
  from process_node_valid [OF assms(1,2) l z] obtain st' where
    p: "process_node g (int i) st = Inr st'" and "order st' = order st"
    and "nb_labels st' = replicate (n_nodes g) 0"
    by blast
  moreover from process_node_frame [OF p] l have "labels_in_range (n_nodes g) (labels st')"
    by (auto intro: labels_in_range_subset)
  ultimately show ?thesis using o by (simp add: core_inv_def)
qed

lemma node_loop_valid:
  assumes valid: "valid_csr g"
    and step: "\<forall>i st st'. i < n_nodes g \<longrightarrow> core_inv (n_nodes g) st \<longrightarrow> Q st \<longrightarrow>
                 process_node g (int i) st = Inr st' \<longrightarrow> Q st'"
  shows "core_inv (n_nodes g) st \<Longrightarrow> Q st \<Longrightarrow> \<forall>k \<in> set ks. k < n_nodes g \<Longrightarrow>
           \<exists>st'. node_loop g ks st = Inr st' \<and> core_inv (n_nodes g) st' \<and> Q st'"
proof (induction ks arbitrary: st)
  case Nil
  then show ?case by simp
next
  case (Cons k ks)
  from Cons.prems(3) have k: "k < n_nodes g" by simp
  from Cons.prems(1) have "order_ok (n_nodes g) (order st)" by (simp add: core_inv_def)
  from order_ok_item [OF this k] have it: "item (order st) (int k) = Inr (order st ! k)"
    and r: "0 \<le> order st ! k" "order st ! k < int (n_nodes g)"
    by simp_all
  from r have i: "nat (order st ! k) < n_nodes g" and e: "int (nat (order st ! k)) = order st ! k"
    by (simp_all add: nat_less_iff)
  from process_node_core_inv [OF valid i Cons.prems(1)] e obtain st1 where
    p: "process_node g (order st ! k) st = Inr st1" and c: "core_inv (n_nodes g) st1"
    by auto
  from step [rule_format, OF i Cons.prems(1,2)] p e have q: "Q st1" by simp
  from Cons.prems(3) have "\<forall>k \<in> set ks. k < n_nodes g" by simp
  from Cons.IH [OF c q this] it p show ?case by simp
qed

lemma mid_pass_valid:
  assumes valid: "valid_csr g"
    and step: "\<forall>i st st'. i < n_nodes g \<longrightarrow> core_inv (n_nodes g) st \<longrightarrow> Q (labels st) \<longrightarrow>
                 process_node g (int i) st = Inr st' \<longrightarrow> Q (labels st')"
    and inv: "core_inv (n_nodes g) st" and q: "Q (labels st)" and k: "k \<le> n_nodes g"
  shows "\<exists>st'. mid_pass g st r k = Inr st' \<and> core_inv (n_nodes g) st' \<and> Q (labels st')"
proof -
  let ?st = "st\<lparr>order := fst (shuffle (order st) (n_nodes g) r), changed := False\<rparr>"
  from inv have "core_inv (n_nodes g) ?st"
    by (simp add: core_inv_def order_ok_shuffle)
  moreover have "Q (labels ?st)" using q by simp
  moreover have "\<forall>j \<in> set [0..<k]. j < n_nodes g" using k by simp
  ultimately have "\<exists>st'. node_loop g [0..<k] ?st = Inr st' \<and> core_inv (n_nodes g) st' \<and>
      Q (labels st')"
    by (rule node_loop_valid [where Q = "\<lambda>s. Q (labels s)", OF valid step])
  then show ?thesis by (simp add: mid_pass_def case_prod_unfold)
qed

lemma one_pass_valid:
  assumes valid: "valid_csr g"
    and step: "\<forall>i st st'. i < n_nodes g \<longrightarrow> core_inv (n_nodes g) st \<longrightarrow> Q (labels st) \<longrightarrow>
                 process_node g (int i) st = Inr st' \<longrightarrow> Q (labels st')"
    and inv: "core_inv (n_nodes g) st" and q: "Q (labels st)"
  shows "\<exists>st'. fst (one_pass g st r) = Inr st' \<and> core_inv (n_nodes g) st' \<and> Q (labels st')"
  using mid_pass_valid [where Q = Q, OF valid step inv q, of "n_nodes g" r]
  by (simp add: one_pass_mid_pass)

lemma after_passes_valid:
  assumes valid: "valid_csr g"
    and step: "\<forall>i st st'. i < n_nodes g \<longrightarrow> core_inv (n_nodes g) st \<longrightarrow> Q (labels st) \<longrightarrow>
                 process_node g (int i) st = Inr st' \<longrightarrow> Q (labels st')"
  shows "core_inv (n_nodes g) st \<Longrightarrow> Q (labels st) \<Longrightarrow> after_passes g p st r = Some (x, r') \<Longrightarrow>
           \<exists>st'. x = Inr st' \<and> core_inv (n_nodes g) st' \<and> Q (labels st')"
proof (induction p arbitrary: st r)
  case 0
  then have "x = Inr st" by simp
  with 0 show ?case by simp
next
  case (Suc p)
  from one_pass_valid [where Q = Q, OF valid step Suc.prems(1,2), of r] obtain st1 r1 where
    o: "one_pass g st r = (Inr st1, r1)" and c: "core_inv (n_nodes g) st1" and q: "Q (labels st1)"
    by (cases "one_pass g st r") auto
  from Suc.prems(3) o have "after_passes g p st1 r1 = Some (x, r')"
    by (simp split: if_splits)
  from Suc.IH [OF c q this] show ?case .
qed

lemma while_changed_valid:
  assumes valid: "valid_csr g"
    and step: "\<forall>i st st'. i < n_nodes g \<longrightarrow> core_inv (n_nodes g) st \<longrightarrow> Q (labels st) \<longrightarrow>
                 process_node g (int i) st = Inr st' \<longrightarrow> Q (labels st')"
    and run: "while_changed g st r = Some (x, r')"
    and inv: "core_inv (n_nodes g) st" and q: "Q (labels st)"
  shows "\<exists>st'. x = Inr st' \<and> core_inv (n_nodes g) st' \<and> Q (labels st')"
proof -
  define R where "R = (\<lambda>(g0::csr) st (r::rng) (y::(error + core_state) \<times> rng).
     g0 = g \<longrightarrow> core_inv (n_nodes g) st \<longrightarrow> Q (labels st) \<longrightarrow>
       (\<exists>st'. fst y = Inr st' \<and> core_inv (n_nodes g) st' \<and> Q (labels st')))"
  have "R g st r (x, r')"
  proof (rule while_changed.raw_induct [where P = R, OF _ run])
    fix f g0 st r y
    assume IH: "\<And>g st r y. f g st r = Some y \<Longrightarrow> R g st r y"
      and eq: "(if changed st
                then case one_pass g0 st r of (Inl e, r') \<Rightarrow> Some (Inl e, r')
                     | (Inr st', r') \<Rightarrow> f g0 st' r'
                else Some (Inr st, r)) = Some y"
    show "R g0 st r y"
      unfolding R_def
    proof (intro impI)
      assume g0: "g0 = g" and c: "core_inv (n_nodes g) st" and ql: "Q (labels st)"
      show "\<exists>st'. fst y = Inr st' \<and> core_inv (n_nodes g) st' \<and> Q (labels st')"
      proof (cases "changed st")
        case False
        with eq have "fst y = Inr st" by auto
        with c ql show ?thesis by simp
      next
        case True
        from one_pass_valid [where Q = Q, OF valid step c ql, of r] obtain st1 r1 where
          o: "one_pass g st r = (Inr st1, r1)" and c1: "core_inv (n_nodes g) st1"
          and q1: "Q (labels st1)"
          by (cases "one_pass g st r") auto
        from eq True g0 o have "f g st1 r1 = Some y" by simp
        from IH [OF this] c1 q1 show ?thesis by (simp add: R_def)
      qed
    qed
  qed
  with inv q show ?thesis by (simp add: R_def)
qed

lemma fit_core_valid:
  assumes valid: "valid_csr g"
    and step: "\<forall>i st st'. i < n_nodes g \<longrightarrow> core_inv (n_nodes g) st \<longrightarrow> Q (labels st) \<longrightarrow>
                 process_node g (int i) st = Inr st' \<longrightarrow> Q (labels st')"
    and q: "Q (map int [0..<n_nodes g])"
    and run: "fit_core (n_nodes g) (indices g) (indptr g) r = Some (y, r')"
  shows "\<exists>labs. y = Inr labs \<and> labels_in_range (n_nodes g) labs \<and> Q labs"
proof -
  have g: "\<lparr>n_nodes = n_nodes g, indices = indices g, indptr = indptr g\<rparr> = g" by simp
  from run obtain x where w: "while_changed g (init_state (n_nodes g)) r = Some (x, r')"
    and y: "y = (case x of Inl e \<Rightarrow> Inl e | Inr st \<Rightarrow> Inr (labels st))"
    unfolding fit_core_def g by (auto split: option.splits sum.splits prod.splits)
  have "Q (labels (init_state (n_nodes g)))" using q by (simp add: init_state_def)
  from while_changed_valid [where Q = Q, OF valid step w core_inv_init this] y
  show ?thesis by (auto simp: core_inv_def)
qed

subsection \<open>Exceptions\<close>

lemma item_error: "item a i = Inl e \<Longrightarrow> e = IndexError"
  by (auto simp: item_def split: if_splits)

lemma count_labels_error: "count_labels ind labs js nb lst = Inl e \<Longrightarrow> e = IndexError"
  by (induction js arbitrary: nb lst) (auto split: sum.splits dest: item_error)

lemma process_node_error: "process_node g i st = Inl e \<Longrightarrow> e = IndexError"
  by (auto simp: process_node_def split: sum.splits prod.splits
      dest: item_error count_labels_error)

lemma node_loop_error: "node_loop g ks st = Inl e \<Longrightarrow> e = IndexError"
  by (induction ks arbitrary: st) (auto split: sum.splits dest: item_error process_node_error)

lemma one_pass_error: "one_pass g st r = (Inl e, r') \<Longrightarrow> e = IndexError"
  by (auto simp: one_pass_def case_prod_unfold Let_def dest: node_loop_error)

lemma while_changed_error:
  assumes run: "while_changed g st r = Some (Inl e, r')"
  shows "e = IndexError"
proof -
  define R where "R = (\<lambda>(g0::csr) (st::core_state) (r::rng) (y::(error + core_state) \<times> rng).
     \<forall>e. fst y = Inl e \<longrightarrow> e = IndexError)"
  have "R g st r (Inl e, r')"
  proof (rule while_changed.raw_induct [where P = R, OF _ run])
    fix f g0 st r y
    assume IH: "\<And>g st r y. f g st r = Some y \<Longrightarrow> R g st r y"
      and eq: "(if changed st
                then case one_pass g0 st r of (Inl e, r') \<Rightarrow> Some (Inl e, r')
                     | (Inr st', r') \<Rightarrow> f g0 st' r'
                else Some (Inr st, r)) = Some y"
    show "R g0 st r y"
    proof (cases "changed st")
      case False
      with eq show ?thesis by (auto simp: R_def)
    next
      case True
      obtain x r1 where o: "one_pass g0 st r = (x, r1)" by (cases "one_pass g0 st r")
      show ?thesis
      proof (cases x)
        case (Inl e1)
        with eq True o one_pass_error [of g0 st r e1 r1] show ?thesis by (auto simp: R_def)
      next
        case (Inr st1)
        with eq True o have "f g0 st1 r1 = Some y" by simp
        from IH [OF this] show ?thesis by (simp add: R_def)
      qed
    qed
  qed
  then show ?thesis by (simp add: R_def)
qed

lemma fit_core_error: "fit_core n ind ptr r = Some (Inl e, r') \<Longrightarrow> e = IndexError"
  by (auto simp: fit_core_def split: option.splits sum.splits prod.splits
      dest: while_changed_error)

lemma fit_core_valid_returns:
  assumes "valid_csr g" and "fit_core (n_nodes g) (indices g) (indptr g) r = Some (y, r')"
  shows "\<exists>labs. y = Inr labs"
  using fit_core_valid [where Q = "\<lambda>_. True", OF assms(1) _ _ assms(2)] by auto

text \<open>
  C2, as stated, fails: \<open>fit_core\<close> validates nothing. Three invalid inputs:
  a final offset that is not the length of \<open>indices\<close> and an entry 5 of
  \<open>indices\<close> that is never read (labels are returned, no error); an entry -1 of
  \<open>indices\<close>, which reads \<open>labels\<close> from the end (labels are returned, no error);
  an entry 7 that raises \<open>IndexError\<close> when node 1 is processed, after node 0
  has been given the label 1.
\<close>

theorem invalid_csr_not_rejected:
  "\<not> valid_csr \<lparr>n_nodes = 2, indices = [5], indptr = [0, 0, 0]\<rparr> \<and>
   map_option fst (fit_core 2 [5] [0, 0, 0] (\<lambda>k. k)) = Some (Inr [0, 1]) \<and>
   \<not> valid_csr \<lparr>n_nodes = 2, indices = [- 1], indptr = [0, 1, 1]\<rparr> \<and>
   map_option fst (fit_core 2 [- 1] [0, 1, 1] (\<lambda>k. k)) = Some (Inr [1, 1]) \<and>
   \<not> valid_csr \<lparr>n_nodes = 2, indices = [1, 7], indptr = [0, 1, 2]\<rparr> \<and>
   mid_pass \<lparr>n_nodes = 2, indices = [1, 7], indptr = [0, 1, 2]\<rparr> (init_state 2) (\<lambda>k. 1) 1 =
     Inr \<lparr>labels = [1, 1], order = [0, 1], nb_labels = [0, 0], changed = True\<rparr> \<and>
   map_option fst (fit_core 2 [1, 7] [0, 1, 2] (\<lambda>k. 1)) = Some (Inl IndexError)"
  by (intro conjI) (simp add: valid_csr_def, code_simp, simp add: valid_csr_def, code_simp,
      simp add: valid_csr_def, code_simp, code_simp)

text \<open>
  C2, amended. \<open>fit\<close> and \<open>fit_core\<close> do not validate the graph. \<open>fit_core\<close>
  raises only on an invalid graph, the \<open>IndexError\<close> of a bounds-checked read
  (not on every invalid graph, and possibly after labels were updated: the
  three inputs above). When \<open>fit_core\<close> raises, there is no partial result:
  \<open>fit\<close>, whatever the object and its seed, ends with that exception and leaves
  \<open>labels_\<close>, every instance and every array as they were.
\<close>

theorem fit_core_raises_without_result:
  assumes "fit_core (n_nodes adjacency) (indices adjacency) (indptr adjacency) r = Some (Inl e, r')"
  shows "e = IndexError \<and> \<not> valid_csr adjacency \<and>
         (\<forall>srand w self w1. fit_srand srand w self = Inr w1 \<longrightarrow> generator w1 = r \<longrightarrow>
            (\<exists>w'. fit srand w self adjacency = Some (Inl e, w') \<and>
                  objs w' = objs w \<and> arrays w' = arrays w \<and>
                  labels_attr (objs w' self) = labels_attr (objs w self)))"
proof -
  have a: "e = IndexError" using assms by (rule fit_core_error)
  have b: "\<not> valid_csr adjacency"
    using fit_core_valid_returns [of adjacency r "Inl e" r'] assms by auto
  have c: "\<exists>w'. fit srand w self adjacency = Some (Inl e, w') \<and>
                  objs w' = objs w \<and> arrays w' = arrays w \<and>
                  labels_attr (objs w' self) = labels_attr (objs w self)"
    if s: "fit_srand srand w self = Inr w1" and g: "generator w1 = r" for srand w self w1
  proof -
    from s g assms have "fit srand w self adjacency = Some (Inl e, w1\<lparr>generator := r'\<rparr>)"
      by (simp add: fit_def)
    with fit_srand_frame [OF s] show ?thesis by simp
  qed
  from a b c show ?thesis by blast
qed

theorem fit_core_raises_without_result_witness:
  "map_option fst (fit_core 2 [1, 7] [0, 1, 2] (\<lambda>k. 1)) = Some (Inl IndexError) \<and>
   \<not> valid_csr \<lparr>n_nodes = 2, indices = [1, 7], indptr = [0, 1, 2]\<rparr> \<and>
   (\<exists>w'. fit (\<lambda>s k. s + k)
           \<lparr>objs = (\<lambda>_. \<lparr>labels_attr = Some 0, seed = None\<rparr>), arrays = [[4, 4]],
              generator = (\<lambda>k. 1)\<rparr>
           0 \<lparr>n_nodes = 2, indices = [1, 7], indptr = [0, 1, 2]\<rparr> = Some (Inl IndexError, w') \<and>
         labels_attr (objs w' 0) = Some 0 \<and> arrays w' = [[4, 4]])"
proof -
  let ?w = "\<lparr>objs = (\<lambda>_. \<lparr>labels_attr = Some 0, seed = None\<rparr>), arrays = [[4, 4]],
             generator = (\<lambda>k. 1)\<rparr>"
  let ?g = "\<lparr>n_nodes = 2, indices = [1, 7], indptr = [0, 1, 2]\<rparr>"
  have v: "map_option fst (fit_core 2 [1, 7] [0, 1, 2] (\<lambda>k. 1)) = Some (Inl IndexError)"
    by code_simp
  then obtain r' where f: "fit_core (n_nodes ?g) (indices ?g) (indptr ?g) (\<lambda>k. 1) =
      Some (Inl IndexError, r')"
    by (cases "fit_core 2 [1, 7] [0, 1, 2] (\<lambda>k. 1)") auto
  have s: "fit_srand (\<lambda>s k. s + k) ?w 0 = Inr ?w" by (simp add: fit_srand_def)
  have g: "generator ?w = (\<lambda>k. 1)" by simp
  note t = fit_core_raises_without_result [OF f]
  from t have n: "\<not> valid_csr ?g" by blast
  from t s g obtain w' where w: "fit (\<lambda>s k. s + k) ?w 0 ?g = Some (Inl IndexError, w')"
    and a: "arrays w' = arrays ?w"
    and l: "labels_attr (objs w' 0) = labels_attr (objs ?w 0)"
    by blast
  from a have a': "arrays w' = [[4, 4]]" by simp
  from l have l': "labels_attr (objs w' 0) = Some 0" by simp
  from w l' a' have "\<exists>w'. fit (\<lambda>s k. s + k) ?w 0 ?g = Some (Inl IndexError, w') \<and>
      labels_attr (objs w' 0) = Some 0 \<and> arrays w' = [[4, 4]]"
    by blast
  with v n show ?thesis by (intro conjI)
qed

subsection \<open>Labels are node ids\<close>

lemma after_passes_valid_returns:
  assumes "valid_csr g" and "after_passes g p (init_state (n_nodes g)) r = Some (x, ra)"
  shows "\<exists>st. x = Inr st \<and> (\<forall>k \<le> n_nodes g. \<exists>st'. mid_pass g st ra k = Inr st')"
proof -
  have step: "\<forall>i st st'. i < n_nodes g \<longrightarrow> core_inv (n_nodes g) st \<longrightarrow> True \<longrightarrow>
                 process_node g (int i) st = Inr st' \<longrightarrow> True"
    by simp
  from after_passes_valid [where Q = "\<lambda>_. True", OF assms(1) step core_inv_init _ assms(2)]
  obtain st where x: "x = Inr st" and c: "core_inv (n_nodes g) st" by auto
  have "\<exists>st'. mid_pass g st ra k = Inr st'" if "k \<le> n_nodes g" for k
    using mid_pass_valid [where Q = "\<lambda>_. True", OF assms(1) step c _ that, of ra] by auto
  with x show ?thesis by blast
qed

text \<open>
  C1. Whatever the input (a valid CSR graph in particular), the labels array of
  \<open>fit_core\<close> has \<open>n_nodes\<close> entries, all in \<open>[0, n_nodes)\<close>: after every
  number of passes, before and after every node inside a pass, and in the
  array returned. It starts as the identity, and a node that is processed
  leaves in \<open>labels\<close> only values that were in \<open>labels\<close> before: the count loop
  puts in \<open>lst\<close> values read from \<open>labels\<close>, and the second loop, stopped after
  any number of its steps, has written values of \<open>lst\<close>. On a valid graph no
  read is out of range: no pass, no node and no run ends with an exception, so
  each of these states exists.
\<close>

theorem fit_core_labels_in_range:
  "(after_passes g p (init_state (n_nodes g)) r = Some (Inr st, ra) \<longrightarrow>
      labels_in_range (n_nodes g) (labels st) \<and>
      (\<forall>k st'. mid_pass g st ra k = Inr st' \<longrightarrow> labels_in_range (n_nodes g) (labels st'))) \<and>
   (\<forall>i st0 st1. process_node g i st0 = Inr st1 \<longrightarrow> set (labels st1) \<subseteq> set (labels st0)) \<and>
   (\<forall>ind ls js nb lst nb' lst'. count_labels ind ls js nb lst = Inr (nb', lst') \<longrightarrow>
      set lst' \<subseteq> set lst \<union> set ls) \<and>
   (\<forall>i lst m st0. set (labels (update_label i lst m st0)) \<subseteq> set (labels st0) \<union> set lst \<and>
      length (labels (update_label i lst m st0)) = length (labels st0)) \<and>
   (fit_core (n_nodes g) (indices g) (indptr g) r = Some (Inr labs, rb) \<longrightarrow>
      labels_in_range (n_nodes g) labs) \<and>
   (valid_csr g \<longrightarrow>
      (\<forall>x. after_passes g p (init_state (n_nodes g)) r = Some (x, ra) \<longrightarrow>
         (\<exists>st. x = Inr st \<and> (\<forall>k \<le> n_nodes g. \<exists>st'. mid_pass g st ra k = Inr st'))) \<and>
      (\<forall>y. fit_core (n_nodes g) (indices g) (indptr g) r = Some (y, rb) \<longrightarrow>
         (\<exists>labs. y = Inr labs)))"
proof -
  have init: "labels_in_range m (labels (init_state m))" for m
    by (auto simp: labels_in_range_def init_state_def)
  have step: "\<And>st r st' r'. labels_in_range m (labels st) \<Longrightarrow> one_pass h st r = (Inr st', r')
      \<Longrightarrow> labels_in_range m (labels st')" for m h
    by (rule one_pass_range)
  have a: "labels_in_range (n_nodes g) (labels st)"
    if "after_passes g p (init_state (n_nodes g)) r = Some (Inr st, ra)"
    using after_passes_invariant [where P = "\<lambda>s. labels_in_range (n_nodes g) (labels s)",
        OF step init that] .
  have b: "labels_in_range (n_nodes g) labs"
    if f: "fit_core (n_nodes g) (indices g) (indptr g) r = Some (Inr labs, rb)"
  proof -
    have g: "\<lparr>n_nodes = n_nodes g, indices = indices g, indptr = indptr g\<rparr> = g" by simp
    from f obtain st' where
      w: "while_changed g (init_state (n_nodes g)) r = Some (Inr st', rb)"
      and l: "labs = labels st'"
      unfolding fit_core_def g by (auto split: option.splits sum.splits prod.splits)
    from while_changed_invariant [where P = "\<lambda>s. labels_in_range (n_nodes g) (labels s)",
        OF step w init] l
    show ?thesis by simp
  qed
  have c: "\<forall>k st'. mid_pass g st ra k = Inr st' \<longrightarrow> labels_in_range (n_nodes g) (labels st')"
    if "labels_in_range (n_nodes g) (labels st)"
    using that mid_pass_range by blast
  have d: "\<forall>i st0 st1. process_node g i st0 = Inr st1 \<longrightarrow> set (labels st1) \<subseteq> set (labels st0)"
    using process_node_frame by blast
  have e: "\<forall>x. after_passes g p (init_state (n_nodes g)) r = Some (x, ra) \<longrightarrow>
         (\<exists>st. x = Inr st \<and> (\<forall>k \<le> n_nodes g. \<exists>st'. mid_pass g st ra k = Inr st'))"
    if "valid_csr g"
    using after_passes_valid_returns [OF that] by blast
  have f: "\<forall>y. fit_core (n_nodes g) (indices g) (indptr g) r = Some (y, rb) \<longrightarrow>
         (\<exists>labs. y = Inr labs)"
    if "valid_csr g"
    using fit_core_valid_returns [OF that] by blast
  have u: "\<forall>ind ls js nb lst nb' lst'. count_labels ind ls js nb lst = Inr (nb', lst') \<longrightarrow>
      set lst' \<subseteq> set lst \<union> set ls"
    using count_labels_from by blast
  have v: "\<forall>i lst m st0. set (labels (update_label i lst m st0)) \<subseteq> set (labels st0) \<union> set lst \<and>
      length (labels (update_label i lst m st0)) = length (labels st0)"
    using update_label_frame by blast
  from a c have ac: "after_passes g p (init_state (n_nodes g)) r = Some (Inr st, ra) \<longrightarrow>
      labels_in_range (n_nodes g) (labels st) \<and>
      (\<forall>k st'. mid_pass g st ra k = Inr st' \<longrightarrow> labels_in_range (n_nodes g) (labels st'))"
    by blast
  from b have b': "fit_core (n_nodes g) (indices g) (indptr g) r = Some (Inr labs, rb) \<longrightarrow>
      labels_in_range (n_nodes g) labs"
    by blast
  from e f have ef: "valid_csr g \<longrightarrow>
      (\<forall>x. after_passes g p (init_state (n_nodes g)) r = Some (x, ra) \<longrightarrow>
         (\<exists>st. x = Inr st \<and> (\<forall>k \<le> n_nodes g. \<exists>st'. mid_pass g st ra k = Inr st'))) \<and>
      (\<forall>y. fit_core (n_nodes g) (indices g) (indptr g) r = Some (y, rb) \<longrightarrow>
         (\<exists>labs. y = Inr labs))"
    by blast
  from ac d u v b' ef show ?thesis by (intro conjI)
qed

theorem fit_core_labels_in_range_witness:
  "valid_csr \<lparr>n_nodes = 3, indices = [1, 2, 0, 2, 0, 1], indptr = [0, 2, 4, 6]\<rparr> \<and>
   map_option fst (after_passes \<lparr>n_nodes = 3, indices = [1, 2, 0, 2, 0, 1], indptr = [0, 2, 4, 6]\<rparr> 1
      (init_state 3) (\<lambda>k. k)) =
     Some (Inr \<lparr>labels = [0, 0, 0], order = [2, 1, 0], nb_labels = [0, 0, 0], changed = True\<rparr>) \<and>
   labels_in_range 3 [0, 0, 0] \<and>
   map_option fst (fit_core 3 [1, 2, 0, 2, 0, 1] [0, 2, 4, 6] (\<lambda>k. k)) = Some (Inr [0, 0, 0])"
proof -
  let ?g = "\<lparr>n_nodes = 3, indices = [1, 2, 0, 2, 0, 1], indptr = [0, 2, 4, 6]\<rparr>"
  let ?st = "\<lparr>labels = [0, 0, 0], order = [2, 1, 0], nb_labels = [0, 0, 0], changed = True\<rparr>"
  have h: "valid_csr ?g" by (simp add: valid_csr_def)
  have a: "map_option fst (after_passes ?g 1 (init_state 3) (\<lambda>k. k)) = Some (Inr ?st)"
    by code_simp
  have f: "map_option fst (fit_core 3 [1, 2, 0, 2, 0, 1] [0, 2, 4, 6] (\<lambda>k. k)) = Some (Inr [0, 0, 0])"
    by code_simp
  then obtain r2 where f': "fit_core (n_nodes ?g) (indices ?g) (indptr ?g) (\<lambda>k. k) =
      Some (Inr [0, 0, 0], r2)"
    by (cases "fit_core 3 [1, 2, 0, 2, 0, 1] [0, 2, 4, 6] (\<lambda>k. k)") auto
  from fit_core_labels_in_range [where g = ?g and r = "\<lambda>k. k" and labs = "[0, 0, 0]" and rb = r2,
      THEN conjunct2, THEN conjunct2, THEN conjunct2, THEN conjunct2, THEN conjunct1, THEN mp, OF f']
  have "labels_in_range 3 [0, 0, 0]" by simp
  with h a f show ?thesis by (intro conjI)
qed

subsection \<open>The label a node takes\<close>

text \<open>
  C3. On a valid graph, a node \<open>i\<close> processed in a state between two nodes
  (labels node ids, tally all zero): with the tally of a label its number of
  occurrences among the current labels of the neighbours of \<open>i\<close>, the labels
  change only if some tally strictly exceeds that of \<open>labels[i]\<close>; then
  \<open>labels[i]\<close> becomes the first label, in the order of first occurrence, whose
  tally is the maximum (strictly smaller tallies before it, none greater
  anywhere), a label other than the old one, and \<open>changed\<close> is set; when no
  tally is strictly greater, ties included, \<open>labels\<close> and \<open>changed\<close> are left as
  they were.
\<close>

theorem process_node_winner:
  assumes "valid_csr g" and "i < n_nodes g"
    and "labels_in_range (n_nodes g) (labels st)"
    and "nb_labels st = replicate (n_nodes g) 0"
  shows "\<exists>st'. process_node g (int i) st = Inr st' \<and>
           (labels st' \<noteq> labels st \<longrightarrow>
              (\<exists>lab \<in> set (neighbour_labels g (labels st) i).
                 tally (neighbour_labels g (labels st) i) (labels st ! i)
                   < tally (neighbour_labels g (labels st) i) lab)) \<and>
           ((\<exists>lab \<in> set (neighbour_labels g (labels st) i).
                 tally (neighbour_labels g (labels st) i) (labels st ! i)
                   < tally (neighbour_labels g (labels st) i) lab) \<longrightarrow>
              (\<exists>pre w post.
                 first_seen (neighbour_labels g (labels st) i) = pre @ w # post \<and>
                 (\<forall>x \<in> set pre. tally (neighbour_labels g (labels st) i) x
                     < tally (neighbour_labels g (labels st) i) w) \<and>
                 (\<forall>x \<in> set (neighbour_labels g (labels st) i).
                     tally (neighbour_labels g (labels st) i) x
                     \<le> tally (neighbour_labels g (labels st) i) w) \<and>
                 tally (neighbour_labels g (labels st) i) (labels st ! i)
                     < tally (neighbour_labels g (labels st) i) w \<and>
                 w \<noteq> labels st ! i \<and>
                 labels st' = (labels st)[i := w] \<and> labels st' ! i = w \<and> changed st')) \<and>
           (\<not> (\<exists>lab \<in> set (neighbour_labels g (labels st) i).
                 tally (neighbour_labels g (labels st) i) (labels st ! i)
                   < tally (neighbour_labels g (labels st) i) lab) \<longrightarrow>
              labels st' = labels st \<and> changed st' = changed st)"
proof -
  let ?nls = "neighbour_labels g (labels st) i"
  let ?t = "tally ?nls"
  let ?own = "labels st ! i"
  from assms(2,3) have il: "i < length (labels st)" by (simp add: labels_in_range_def)
  from process_node_valid [OF assms] obtain st' where
    p: "process_node g (int i) st = Inr st'"
    and c: "if \<forall>lab \<in> set ?nls. ?t lab \<le> ?t ?own
            then labels st' = labels st \<and> changed st' = changed st
            else \<exists>pre w post. first_seen ?nls = pre @ w # post \<and> (\<forall>x \<in> set pre. ?t x < ?t w) \<and>
                   (\<forall>x \<in> set post. ?t x \<le> ?t w) \<and> ?t ?own < ?t w \<and>
                   labels st' = (labels st)[i := w] \<and> changed st'"
    by blast
  show ?thesis
  proof (cases "\<forall>lab \<in> set ?nls. ?t lab \<le> ?t ?own")
    case True
    then have n: "\<not> (\<exists>lab \<in> set ?nls. ?t ?own < ?t lab)" by (auto simp: not_less)
    from c True have "labels st' = labels st \<and> changed st' = changed st" by simp
    with p n show ?thesis by (intro exI [of _ st']) simp
  next
    case False
    then have e: "\<exists>lab \<in> set ?nls. ?t ?own < ?t lab" by (auto simp: not_le)
    from c have "\<exists>pre w post. first_seen ?nls = pre @ w # post \<and> (\<forall>x \<in> set pre. ?t x < ?t w) \<and>
                   (\<forall>x \<in> set post. ?t x \<le> ?t w) \<and> ?t ?own < ?t w \<and>
                   labels st' = (labels st)[i := w] \<and> changed st'"
      unfolding if_not_P [OF False] .
    then obtain pre w post where f: "first_seen ?nls = pre @ w # post"
      and a: "\<forall>x \<in> set pre. ?t x < ?t w" and b: "\<forall>x \<in> set post. ?t x \<le> ?t w"
      and o: "?t ?own < ?t w" and l: "labels st' = (labels st)[i := w]" and ch: "changed st'"
      by blast
    have "set ?nls = set pre \<union> {w} \<union> set post"
      using set_first_seen [of ?nls] f by simp
    with a b have m: "\<forall>x \<in> set ?nls. ?t x \<le> ?t w" by auto
    from o have ne: "w \<noteq> ?own" by auto
    from l il have at: "labels st' ! i = w" by simp
    have "\<exists>pre w post.
                 first_seen ?nls = pre @ w # post \<and> (\<forall>x \<in> set pre. ?t x < ?t w) \<and>
                 (\<forall>x \<in> set ?nls. ?t x \<le> ?t w) \<and> ?t ?own < ?t w \<and> w \<noteq> ?own \<and>
                 labels st' = (labels st)[i := w] \<and> labels st' ! i = w \<and> changed st'"
      using f a m o ne l at ch by blast
    with p e show ?thesis by (intro exI [of _ st']) blast
  qed
qed

theorem process_node_winner_witness:
  "valid_csr \<lparr>n_nodes = 4, indices = [1, 2, 3], indptr = [0, 3, 3, 3, 3]\<rparr> \<and>
   labels_in_range 4 [0, 2, 3, 3] \<and>
   neighbour_labels \<lparr>n_nodes = 4, indices = [1, 2, 3], indptr = [0, 3, 3, 3, 3]\<rparr> [0, 2, 3, 3] 0
     = [2, 3, 3] \<and>
   first_seen [2, 3, 3] = [2, 3] \<and> tally [2, 3, 3] 0 = 0 \<and> tally [2, 3, 3] 2 = 1 \<and>
   tally [2, 3, 3] 3 = 2 \<and>
   process_node \<lparr>n_nodes = 4, indices = [1, 2, 3], indptr = [0, 3, 3, 3, 3]\<rparr> 0
     \<lparr>labels = [0, 2, 3, 3], order = [0, 1, 2, 3], nb_labels = [0, 0, 0, 0], changed = False\<rparr> =
   Inr \<lparr>labels = [3, 2, 3, 3], order = [0, 1, 2, 3], nb_labels = [0, 0, 0, 0], changed = True\<rparr>"
proof -
  let ?g = "\<lparr>n_nodes = 4, indices = [1, 2, 3], indptr = [0, 3, 3, 3, 3]\<rparr>"
  let ?st = "\<lparr>labels = [0, 2, 3, 3], order = [0, 1, 2, 3], nb_labels = [0, 0, 0, 0],
              changed = False\<rparr>"
  have h1: "valid_csr ?g" by (simp add: valid_csr_def)
  have h2: "0 < n_nodes ?g" by simp
  have h3: "labels_in_range (n_nodes ?g) (labels ?st)" by (simp add: labels_in_range_def)
  have h4: "nb_labels ?st = replicate (n_nodes ?g) 0" by code_simp
  have v: "neighbour_labels ?g [0, 2, 3, 3] 0 = [2, 3, 3]" "first_seen [2, 3, 3] = [2, 3]"
    "tally [2, 3, 3] 0 = 0" "tally [2, 3, 3] 2 = 1" "tally [2, 3, 3] 3 = 2"
    by code_simp+
  have p: "process_node ?g 0 ?st =
     Inr \<lparr>labels = [3, 2, 3, 3], order = [0, 1, 2, 3], nb_labels = [0, 0, 0, 0], changed = True\<rparr>"
    by code_simp
  from process_node_winner [OF h1 h2 h3 h4] h1 h3 v p show ?thesis by simp
qed

subsection \<open>Labels and connected components\<close>

lemma process_node_neighbour:
  assumes valid: "valid_csr g" and i: "i < n_nodes g" and inv: "core_inv (n_nodes g) st"
    and p: "process_node g (int i) st = Inr st'"
  shows "labels st' = labels st \<or>
         (\<exists>v \<in> set (neighbours g i). labels st' = (labels st)[i := labels st ! nat v])"
proof -
  let ?nls = "neighbour_labels g (labels st) i"
  from inv have l: "labels_in_range (n_nodes g) (labels st)"
    and z: "nb_labels st = replicate (n_nodes g) 0"
    by (simp_all add: core_inv_def)
  from process_node_valid [OF valid i l z] p obtain c where
    "if c then labels st' = labels st \<and> changed st' = changed st
     else \<exists>pre w post. first_seen ?nls = pre @ w # post \<and>
            (\<forall>x \<in> set pre. tally ?nls x < tally ?nls w) \<and>
            (\<forall>x \<in> set post. tally ?nls x \<le> tally ?nls w) \<and>
            tally ?nls (labels st ! i) < tally ?nls w \<and>
            labels st' = (labels st)[i := w] \<and> changed st'"
    by auto
  then have "labels st' = labels st \<or>
        (\<exists>pre w post. first_seen ?nls = pre @ w # post \<and> labels st' = (labels st)[i := w])"
    by (cases c) (simp, simp, blast)
  then show ?thesis
  proof
    assume "labels st' = labels st"
    then show ?thesis ..
  next
    assume "\<exists>pre w post. first_seen ?nls = pre @ w # post \<and> labels st' = (labels st)[i := w]"
    then obtain pre w post where f: "first_seen ?nls = pre @ w # post"
      and s: "labels st' = (labels st)[i := w]"
      by blast
    from f have "w \<in> set (first_seen ?nls)" by simp
    then have "w \<in> set ?nls" by (simp add: set_first_seen)
    then obtain v where "v \<in> set (neighbours g i)" and "w = labels st ! nat v"
      by (auto simp: neighbour_labels_def)
    with s show ?thesis by blast
  qed
qed

lemma process_node_reach:
  assumes valid: "valid_csr g" and i: "i < n_nodes g" and inv: "core_inv (n_nodes g) st"
    and reach: "labels_reach g (labels st)"
    and p: "process_node g (int i) st = Inr st'"
  shows "labels_reach g (labels st')"
proof -
  from inv i have il: "i < length (labels st)"
    by (simp add: core_inv_def labels_in_range_def)
  from process_node_neighbour [OF valid i inv p] show ?thesis
  proof
    assume "labels st' = labels st"
    with reach show ?thesis by simp
  next
    assume "\<exists>v \<in> set (neighbours g i). labels st' = (labels st)[i := labels st ! nat v]"
    then obtain v where v: "v \<in> set (neighbours g i)"
      and s: "labels st' = (labels st)[i := labels st ! nat v]"
      by blast
    from neighbours_in_range [OF valid i v] have nv: "nat v < n_nodes g"
      by (simp add: nat_less_iff)
    from v i have "(i, nat v) \<in> edges g" by (auto simp: edges_def)
    moreover from reach nv have "(nat v, nat (labels st ! nat v)) \<in> (edges g)\<^sup>*"
      by (simp add: labels_reach_def)
    ultimately have iv: "(i, nat (labels st ! nat v)) \<in> (edges g)\<^sup>*"
      by (rule converse_rtrancl_into_rtrancl)
    show ?thesis
      unfolding labels_reach_def
    proof (intro allI impI)
      fix k assume k: "k < n_nodes g"
      show "(k, nat (labels st' ! k)) \<in> (edges g)\<^sup>*"
      proof (cases "k = i")
        case True
        with s il iv show ?thesis by simp
      next
        case False
        with s reach k show ?thesis by (simp add: labels_reach_def)
      qed
    qed
  qed
qed

lemma labels_reach_init: "labels_reach g (map int [0..<n_nodes g])"
  by (simp add: labels_reach_def)

lemma reach_same_component:
  "(i, j) \<in> (edges g)\<^sup>* \<Longrightarrow> same_component g i j"
  unfolding same_component_def using rtrancl_mono [of "edges g" "edges g \<union> (edges g)\<inverse>"] by auto

lemma same_component_sym: "same_component g i j \<Longrightarrow> same_component g j i"
proof -
  have "(edges g \<union> (edges g)\<inverse>)\<inverse> = edges g \<union> (edges g)\<inverse>" by auto
  then have "((edges g \<union> (edges g)\<inverse>)\<^sup>*)\<inverse> = (edges g \<union> (edges g)\<inverse>)\<^sup>*"
    by (simp add: rtrancl_converse [symmetric])
  then show "same_component g i j \<Longrightarrow> same_component g j i"
    unfolding same_component_def by (metis converse_iff)
qed

lemma same_component_trans:
  "same_component g i j \<Longrightarrow> same_component g j k \<Longrightarrow> same_component g i k"
  unfolding same_component_def by (rule rtrancl_trans)

lemma labels_reach_component:
  assumes "labels_reach g labs"
  shows "(\<forall>i < n_nodes g. same_component g i (nat (labs ! i))) \<and>
         (\<forall>i < n_nodes g. \<forall>j < n_nodes g. labs ! i = labs ! j \<longrightarrow> same_component g i j)"
proof -
  have a: "same_component g i (nat (labs ! i))" if "i < n_nodes g" for i
    using assms that by (simp add: labels_reach_def reach_same_component)
  have "same_component g i j" if "i < n_nodes g" "j < n_nodes g" "labs ! i = labs ! j" for i j
    using a [OF that(1)] same_component_sym [OF a [OF that(2)]] that(3)
    by (auto intro: same_component_trans)
  with a show ?thesis by blast
qed

subsection \<open>The tally table between nodes\<close>

lemma count_labels_node:
  assumes valid: "valid_csr g" and i: "i < n_nodes g"
    and labs: "labels_in_range (n_nodes g) labs"
  shows "\<exists>nb. count_labels (indices g) labs [indptr g ! i .. indptr g ! (i + 1) - 1]
                (replicate (n_nodes g) 0) [] =
              Inr (nb, first_seen (neighbour_labels g labs i)) \<and>
           length nb = n_nodes g \<and>
           (\<forall>l < n_nodes g. nb ! l = tally (neighbour_labels g labs i) (int l)) \<and>
           (\<forall>l < n_nodes g. nb ! l \<noteq> 0 \<longleftrightarrow> int l \<in> set (first_seen (neighbour_labels g labs i)))"
proof -
  let ?n = "n_nodes g"
  let ?js = "[indptr g ! i .. indptr g ! (i + 1) - 1]"
  from labs have len: "length labs = ?n" and rng: "\<forall>x \<in> set labs. 0 \<le> x \<and> x < int ?n"
    by (simp_all add: labels_in_range_def)
  have "\<exists>nb'. count_labels (indices g) labs ?js (replicate ?n 0) [] =
           Inr (nb', first_seen ([] @ map (\<lambda>j. labs ! nat (indices g ! nat j)) ?js)) \<and>
         length nb' = ?n \<and>
         (\<forall>l < ?n. nb' ! l = tally ([] @ map (\<lambda>j. labs ! nat (indices g ! nat j)) ?js) (int l))"
  proof (rule count_labels_valid)
    show "\<forall>j \<in> set ?js. 0 \<le> j \<and> j < int (length (indices g))"
      using valid_csr_slice [OF valid i] by blast
    show "\<forall>v \<in> set (indices g). 0 \<le> v \<and> v < int (length labs)"
      using valid_csr_indices [OF valid] len by simp
    show "\<forall>x \<in> set labs. 0 \<le> x \<and> x < int ?n" by (rule rng)
    show "length (replicate ?n (0::int)) = ?n" by simp
    show "\<forall>l < ?n. replicate ?n 0 ! l = tally [] (int l)" by (simp add: tally_def)
    show "[] = first_seen []" by (simp add: first_seen_def)
  qed
  then obtain nb where
    c: "count_labels (indices g) labs ?js (replicate ?n 0) [] =
          Inr (nb, first_seen (neighbour_labels g labs i))"
    and nbl: "length nb = ?n"
    and nbt: "\<forall>l < ?n. nb ! l = tally (neighbour_labels g labs i) (int l)"
    by (auto simp: neighbour_labels_alt)
  from nbt have "\<forall>l < ?n. nb ! l \<noteq> 0 \<longleftrightarrow> int l \<in> set (first_seen (neighbour_labels g labs i))"
    by (simp add: tally_zero_iff set_first_seen)
  with c nbl nbt show ?thesis by blast
qed

lemma update_label_resets_nth:
  "l < length (nb_labels st) \<Longrightarrow>
     nb_labels (update_label i lst m st) ! l = (if l \<in> nat ` set lst then 0 else nb_labels st ! l)"
  by (simp add: update_label_resets fold_reset_nth)

text \<open>
  C4. On a valid graph, the tally table is all zero after every number of
  passes and, inside a pass, when the processing of each node begins and when
  the last node is done. In between, from a zero table the count loop leaves
  in each cell the tally of its label and lists in \<open>lst\<close> exactly the labels
  whose cell is not zero; the second loop then zeroes the cells of the labels
  of \<open>lst\<close>, all of them, and no other cell.
\<close>

theorem tally_zero_between_nodes:
  assumes "valid_csr g"
  shows "(after_passes g p (init_state (n_nodes g)) r = Some (x, ra) \<longrightarrow>
            (\<exists>st. x = Inr st \<and> nb_labels st = replicate (n_nodes g) 0 \<and>
               (\<forall>k \<le> n_nodes g. \<exists>st'. mid_pass g st ra k = Inr st' \<and>
                    nb_labels st' = replicate (n_nodes g) 0))) \<and>
         (\<forall>i < n_nodes g. \<forall>labs. labels_in_range (n_nodes g) labs \<longrightarrow>
            (\<exists>nb. count_labels (indices g) labs [indptr g ! i .. indptr g ! (i + 1) - 1]
                     (replicate (n_nodes g) 0) [] =
                   Inr (nb, first_seen (neighbour_labels g labs i)) \<and>
                 length nb = n_nodes g \<and>
                 (\<forall>l < n_nodes g. nb ! l = tally (neighbour_labels g labs i) (int l)) \<and>
                 (\<forall>l < n_nodes g. nb ! l \<noteq> 0 \<longleftrightarrow>
                    int l \<in> set (first_seen (neighbour_labels g labs i))))) \<and>
         (\<forall>i lst m st l. l < length (nb_labels st) \<longrightarrow>
            nb_labels (update_label i lst m st) ! l =
              (if l \<in> nat ` set lst then 0 else nb_labels st ! l))"
proof -
  have step: "\<forall>i st st'. i < n_nodes g \<longrightarrow> core_inv (n_nodes g) st \<longrightarrow> True \<longrightarrow>
                 process_node g (int i) st = Inr st' \<longrightarrow> True"
    by simp
  have a: "\<exists>st. x = Inr st \<and> nb_labels st = replicate (n_nodes g) 0 \<and>
               (\<forall>k \<le> n_nodes g. \<exists>st'. mid_pass g st ra k = Inr st' \<and>
                    nb_labels st' = replicate (n_nodes g) 0)"
    if run: "after_passes g p (init_state (n_nodes g)) r = Some (x, ra)"
  proof -
    from after_passes_valid [where Q = "\<lambda>_. True", OF assms step core_inv_init _ run]
    obtain st where x: "x = Inr st" and c: "core_inv (n_nodes g) st" by auto
    have "\<exists>st'. mid_pass g st ra k = Inr st' \<and> nb_labels st' = replicate (n_nodes g) 0"
      if "k \<le> n_nodes g" for k
      using mid_pass_valid [where Q = "\<lambda>_. True", OF assms step c _ that, of ra]
      by (auto simp: core_inv_def)
    with x c show ?thesis by (auto simp: core_inv_def)
  qed
  from a count_labels_node [OF assms] update_label_resets_nth show ?thesis
    by blast
qed

theorem tally_zero_between_nodes_witness:
  "valid_csr \<lparr>n_nodes = 3, indices = [1, 2, 0, 2, 0, 1], indptr = [0, 2, 4, 6]\<rparr> \<and>
   map_option fst (after_passes \<lparr>n_nodes = 3, indices = [1, 2, 0, 2, 0, 1], indptr = [0, 2, 4, 6]\<rparr>
      1 (init_state 3) (\<lambda>k. k)) =
     Some (Inr \<lparr>labels = [0, 0, 0], order = [2, 1, 0], nb_labels = [0, 0, 0], changed = True\<rparr>) \<and>
   [0, 0, 0] = replicate 3 (0::int) \<and>
   mid_pass \<lparr>n_nodes = 3, indices = [1, 2, 0, 2, 0, 1], indptr = [0, 2, 4, 6]\<rparr>
      (init_state 3) (\<lambda>k. k) 1 =
     Inr \<lparr>labels = [0, 1, 0], order = [2, 1, 0], nb_labels = [0, 0, 0], changed = True\<rparr> \<and>
   labels_in_range 3 [0, 1, 2] \<and>
   count_labels [1, 2, 0, 2, 0, 1] [0, 1, 2] [4 .. 6 - 1] (replicate 3 0) [] =
     Inr ([1, 1, 0], [0, 1]) \<and>
   nb_labels (update_label 2 [0, 1] 0
      \<lparr>labels = [0, 1, 2], order = [2, 1, 0], nb_labels = [1, 1, 0], changed = False\<rparr>) =
     [0, 0, 0]"
proof -
  let ?g = "\<lparr>n_nodes = 3, indices = [1, 2, 0, 2, 0, 1], indptr = [0, 2, 4, 6]\<rparr>"
  let ?st = "\<lparr>labels = [0, 0, 0], order = [2, 1, 0], nb_labels = [0, 0, 0], changed = True\<rparr>"
  have h: "valid_csr ?g" by (simp add: valid_csr_def)
  have a: "map_option fst (after_passes ?g 1 (init_state 3) (\<lambda>k. k)) = Some (Inr ?st)"
    by code_simp
  then obtain r1 where a': "after_passes ?g 1 (init_state (n_nodes ?g)) (\<lambda>k. k) = Some (Inr ?st, r1)"
    by (cases "after_passes ?g 1 (init_state 3) (\<lambda>k. k)") auto
  from tally_zero_between_nodes [OF h, where p = 1 and r = "\<lambda>k. k" and x = "Inr ?st" and ra = r1,
      THEN conjunct1, THEN mp, OF a']
  have z: "[0, 0, 0] = replicate 3 (0::int)" by simp
  have m: "mid_pass ?g (init_state 3) (\<lambda>k. k) 1 =
     Inr \<lparr>labels = [0, 1, 0], order = [2, 1, 0], nb_labels = [0, 0, 0], changed = True\<rparr>"
    by code_simp
  have l: "labels_in_range 3 [0, 1, 2]" by (simp add: labels_in_range_def)
  have c: "count_labels [1, 2, 0, 2, 0, 1] [0, 1, 2] [4 .. 6 - 1] (replicate 3 0) [] =
     Inr ([1, 1, 0], [0, 1])"
    by code_simp
  have u: "nb_labels (update_label 2 [0, 1] 0
      \<lparr>labels = [0, 1, 2], order = [2, 1, 0], nb_labels = [1, 1, 0], changed = False\<rparr>) =
     [0, 0, 0]"
    by code_simp
  from h a z m l c u show ?thesis by (intro conjI)
qed

text \<open>
  C7. On a valid graph, after every number of passes and between any two nodes
  of a pass, the label of each node is the id of a node of its connected
  component: a node processed keeps its labels or takes the current label of
  one of its neighbours. In the labels \<open>fit_core\<close> returns, two nodes with the
  same label are in the same component: no label appears in two components.
\<close>

theorem labels_stay_in_component:
  assumes "valid_csr g"
  shows "(after_passes g p (init_state (n_nodes g)) r = Some (x, ra) \<longrightarrow>
            (\<exists>st. x = Inr st \<and>
               (\<forall>i < n_nodes g. same_component g i (nat (labels st ! i))) \<and>
               (\<forall>k \<le> n_nodes g. \<exists>st'. mid_pass g st ra k = Inr st' \<and>
                    (\<forall>i < n_nodes g. same_component g i (nat (labels st' ! i)))))) \<and>
         (\<forall>i < n_nodes g. \<forall>st st'. core_inv (n_nodes g) st \<longrightarrow>
            process_node g (int i) st = Inr st' \<longrightarrow>
              labels st' = labels st \<or>
              (\<exists>v \<in> set (neighbours g i). labels st' = (labels st)[i := labels st ! nat v])) \<and>
         (fit_core (n_nodes g) (indices g) (indptr g) r = Some (y, rb) \<longrightarrow>
            (\<exists>labs. y = Inr labs \<and>
               (\<forall>i < n_nodes g. same_component g i (nat (labs ! i))) \<and>
               (\<forall>i < n_nodes g. \<forall>j < n_nodes g.
                   labs ! i = labs ! j \<longrightarrow> same_component g i j)))"
proof -
  have step: "\<forall>i st st'. i < n_nodes g \<longrightarrow> core_inv (n_nodes g) st \<longrightarrow>
                 labels_reach g (labels st) \<longrightarrow>
                 process_node g (int i) st = Inr st' \<longrightarrow> labels_reach g (labels st')"
    using process_node_reach [OF assms] by blast
  have i0: "labels_reach g (labels (init_state (n_nodes g)))"
    by (simp add: init_state_def labels_reach_init)
  have a: "\<exists>st. x = Inr st \<and>
               (\<forall>i < n_nodes g. same_component g i (nat (labels st ! i))) \<and>
               (\<forall>k \<le> n_nodes g. \<exists>st'. mid_pass g st ra k = Inr st' \<and>
                    (\<forall>i < n_nodes g. same_component g i (nat (labels st' ! i))))"
    if run: "after_passes g p (init_state (n_nodes g)) r = Some (x, ra)"
  proof -
    from after_passes_valid [where Q = "labels_reach g", OF assms step core_inv_init i0 run]
    obtain st where x: "x = Inr st" and c: "core_inv (n_nodes g) st"
      and q: "labels_reach g (labels st)"
      by auto
    have "\<exists>st'. mid_pass g st ra k = Inr st' \<and>
            (\<forall>i < n_nodes g. same_component g i (nat (labels st' ! i)))"
      if "k \<le> n_nodes g" for k
      using mid_pass_valid [where Q = "labels_reach g", OF assms step c q that, of ra]
        labels_reach_component by blast
    with x labels_reach_component [OF q] show ?thesis by blast
  qed
  have b: "\<exists>labs. y = Inr labs \<and>
               (\<forall>i < n_nodes g. same_component g i (nat (labs ! i))) \<and>
               (\<forall>i < n_nodes g. \<forall>j < n_nodes g.
                   labs ! i = labs ! j \<longrightarrow> same_component g i j)"
    if run: "fit_core (n_nodes g) (indices g) (indptr g) r = Some (y, rb)"
    using fit_core_valid [where Q = "labels_reach g", OF assms step labels_reach_init run]
      labels_reach_component by blast
  from a b process_node_neighbour [OF assms] show ?thesis
    by blast
qed

theorem labels_stay_in_component_witness:
  "valid_csr \<lparr>n_nodes = 4, indices = [1, 0, 3, 2], indptr = [0, 1, 2, 3, 4]\<rparr> \<and>
   map_option fst (fit_core 4 [1, 0, 3, 2] [0, 1, 2, 3, 4] (\<lambda>k. 3 * k + 1)) =
     Some (Inr [1, 1, 3, 3]) \<and>
   same_component \<lparr>n_nodes = 4, indices = [1, 0, 3, 2], indptr = [0, 1, 2, 3, 4]\<rparr> 0 1 \<and>
   same_component \<lparr>n_nodes = 4, indices = [1, 0, 3, 2], indptr = [0, 1, 2, 3, 4]\<rparr> 2 3"
proof -
  let ?g = "\<lparr>n_nodes = 4, indices = [1, 0, 3, 2], indptr = [0, 1, 2, 3, 4]\<rparr>"
  have h: "valid_csr ?g" by (simp add: valid_csr_def)
  have f: "map_option fst (fit_core 4 [1, 0, 3, 2] [0, 1, 2, 3, 4] (\<lambda>k. 3 * k + 1)) =
     Some (Inr [1, 1, 3, 3])"
    by code_simp
  then obtain r2 where f': "fit_core (n_nodes ?g) (indices ?g) (indptr ?g) (\<lambda>k. 3 * k + 1) =
      Some (Inr [1, 1, 3, 3], r2)"
    by (cases "fit_core 4 [1, 0, 3, 2] [0, 1, 2, 3, 4] (\<lambda>k. 3 * k + 1)") auto
  from labels_stay_in_component [OF h, where r = "\<lambda>k. 3 * k + 1" and y = "Inr [1, 1, 3, 3]"
      and rb = r2, THEN conjunct2, THEN conjunct2, THEN mp, OF f']
  have c: "\<forall>i < 4. \<forall>j < 4. [1, 1, 3, 3 :: int] ! i = [1, 1, 3, 3] ! j \<longrightarrow> same_component ?g i j"
    by simp
  from c [rule_format, of 0 1] c [rule_format, of 2 3] h f show ?thesis by simp
qed

end
